theory Spec2Isabelle
  imports Main "HOL-Library.Word"
begin

unbundle bit_operations_syntax

chapter \<open>The seekable encrypted range-streaming engine of s3-file-server\<close>

text \<open>
  A shallow embedding of the Go sources: the repeating-key stream
  (\<^verbatim>\<open>xorReader\<close>, \<^verbatim>\<open>xorWriter\<close>), the counter-mode stream
  (\<^verbatim>\<open>NewCTRReader\<close>, \<^verbatim>\<open>ctrReader.Read\<close>, \<^verbatim>\<open>NewCTRWriter\<close>,
  \<^verbatim>\<open>ctrWriter.Write\<close>) and the two HTTP handlers \<^verbatim>\<open>ServeXORFile\<close> and
  \<^verbatim>\<open>ServeCTRFile\<close>. All definitions come first, the lemmas and theorems follow.
\<close>

section \<open>Go values\<close>

text \<open>
  A Go \<^verbatim>\<open>byte\<close> is an 8-bit word. A Go \<^verbatim>\<open>int64\<close> is modelled as an \<^typ>\<open>int\<close> with
  the two's-complement wrap-around written out: \<open>wrap64\<close> maps the mathematical result of
  an operation to the value the machine stores. Go's \<^verbatim>\<open>/\<close> and \<^verbatim>\<open>%\<close> truncate towards
  zero, unlike \<open>div\<close> and \<open>mod\<close> of HOL.
\<close>

type_synonym byte = "8 word"

definition wrap64 :: "int \<Rightarrow> int" where
  "wrap64 x = (x + 2 ^ 63) mod 2 ^ 64 - 2 ^ 63"

definition add64 :: "int \<Rightarrow> int \<Rightarrow> int" where
  "add64 a b = wrap64 (a + b)"

definition sub64 :: "int \<Rightarrow> int \<Rightarrow> int" where
  "sub64 a b = wrap64 (a - b)"

definition quo64 :: "int \<Rightarrow> int \<Rightarrow> int" where
  "quo64 a b = wrap64 (sgn a * sgn b * (\<bar>a\<bar> div \<bar>b\<bar>))"

definition rem64 :: "int \<Rightarrow> int \<Rightarrow> int" where
  "rem64 a b = sgn a * (\<bar>a\<bar> mod \<bar>b\<bar>)"

text \<open>The run-time panics the modelled code can raise.\<close>

datatype panic =
    DivideByZero
  | IndexOutOfRange
  | SliceBoundsOutOfRange
  | IVLengthMismatch

section \<open>The repeating-key stream (xorReader, xorWriter)\<close>

text \<open>
  \<^verbatim>\<open>type xorReader struct { reader io.Reader; key string; offset int64 }\<close>.
  A Go string is a sequence of bytes, so the key is a byte list. The wrapped
  \<^verbatim>\<open>io.Reader\<close> is not a field of the model: a call of \<^verbatim>\<open>Read\<close> is given the
  bytes the wrapped reader delivered into \<^verbatim>\<open>p[:n]\<close>.
\<close>

record xorReader =
  key :: "byte list"
  offset :: int

record xorWriter =
  key :: "byte list"
  offset :: int

definition NewXorReader :: "byte list \<Rightarrow> int \<Rightarrow> xorReader" where
  "NewXorReader k off = \<lparr>xorReader.key = k, xorReader.offset = off\<rparr>"

text \<open>
  The loop shared by \<^verbatim>\<open>Read\<close> and \<^verbatim>\<open>Write\<close>:
  \<^verbatim>\<open>for i := int64(0); i < n2; i++ { p[i] ^= r.key[(r.offset+i)%keyLen] }\<close>.
  The argument \<open>i\<close> is the loop counter, the list holds \<^verbatim>\<open>p[i:n2]\<close>. The remainder by
  a zero \<^verbatim>\<open>keyLen\<close> panics, and so does an index outside the key (a negative
  remainder, which Go's \<^verbatim>\<open>%\<close> gives for a negative left operand).
\<close>

fun xorLoop :: "byte list \<Rightarrow> int \<Rightarrow> int \<Rightarrow> byte list \<Rightarrow> panic + byte list" where
  "xorLoop k off i [] = Inr []"
| "xorLoop k off i (p # ps) =
     (let keyLen = int (length k) in
      if keyLen = 0 then Inl DivideByZero
      else
        let j = rem64 (add64 off i) keyLen in
        if j < 0 \<or> keyLen \<le> j then Inl IndexOutOfRange
        else (case xorLoop k off (i + 1) ps of
                Inl e \<Rightarrow> Inl e
              | Inr ps' \<Rightarrow> Inr ((p XOR k ! nat j) # ps')))"

text \<open>
  \<^verbatim>\<open>func (r *xorReader) Read(p []byte)\<close>: transforms the \<open>n\<close> bytes read and advances
  the cursor by \<open>n\<close>. The result is the transformed chunk and the reader afterwards.
\<close>

definition xorReader_Read :: "xorReader \<Rightarrow> byte list \<Rightarrow> panic + (byte list \<times> xorReader)" where
  "xorReader_Read r p =
     (case xorLoop (xorReader.key r) (xorReader.offset r) 0 p of
        Inl e \<Rightarrow> Inl e
      | Inr p' \<Rightarrow> Inr (p', r\<lparr>xorReader.offset := add64 (xorReader.offset r) (int (length p))\<rparr>))"

text \<open>Successive \<^verbatim>\<open>Read\<close> calls, one per chunk the wrapped reader delivers
  (the loop of \<^verbatim>\<open>io.Copy\<close>).\<close>

fun xorReader_ReadAll :: "xorReader \<Rightarrow> byte list list \<Rightarrow> panic + (byte list list \<times> xorReader)" where
  "xorReader_ReadAll r [] = Inr ([], r)"
| "xorReader_ReadAll r (c # cs) =
     (case xorReader_Read r c of
        Inl e \<Rightarrow> Inl e
      | Inr (out, r1) \<Rightarrow>
          (case xorReader_ReadAll r1 cs of
             Inl e \<Rightarrow> Inl e
           | Inr (outs, r2) \<Rightarrow> Inr (out # outs, r2)))"

text \<open>\<^verbatim>\<open>NewXorWriter\<close> leaves \<^verbatim>\<open>offset\<close> at its zero value.\<close>

definition NewXorWriter :: "byte list \<Rightarrow> xorWriter" where
  "NewXorWriter k = \<lparr>xorWriter.key = k, xorWriter.offset = 0\<rparr>"

text \<open>
  \<^verbatim>\<open>func (r *xorWriter) Write(p []byte)\<close>: transforms \<open>p\<close>, advances the cursor and
  hands the transformed bytes to the wrapped writer. The result is the bytes handed on
  and the writer afterwards.
\<close>

definition xorWriter_Write :: "xorWriter \<Rightarrow> byte list \<Rightarrow> panic + (byte list \<times> xorWriter)" where
  "xorWriter_Write w p =
     (case xorLoop (xorWriter.key w) (xorWriter.offset w) 0 p of
        Inl e \<Rightarrow> Inl e
      | Inr p' \<Rightarrow> Inr (p', w\<lparr>xorWriter.offset := add64 (xorWriter.offset w) (int (length p))\<rparr>))"

fun xorWriter_WriteAll :: "xorWriter \<Rightarrow> byte list list \<Rightarrow> panic + (byte list list \<times> xorWriter)" where
  "xorWriter_WriteAll w [] = Inr ([], w)"
| "xorWriter_WriteAll w (c # cs) =
     (case xorWriter_Write w c of
        Inl e \<Rightarrow> Inl e
      | Inr (out, w1) \<Rightarrow>
          (case xorWriter_WriteAll w1 cs of
             Inl e \<Rightarrow> Inl e
           | Inr (outs, w2) \<Rightarrow> Inr (out # outs, w2)))"

section \<open>Go library: encoding/binary and crypto/cipher\<close>

text \<open>
  \<^verbatim>\<open>binary.BigEndian.Uint64(b)\<close> reads \<^verbatim>\<open>b[0..7]\<close> as a big-endian number
  (\<^verbatim>\<open>uint64(b[7]) | uint64(b[6])<<8 | ... | uint64(b[0])<<56\<close>; the shifted bytes do
  not overlap, so the Horner scheme below computes the same word), and
  \<^verbatim>\<open>binary.BigEndian.PutUint64(b, v)\<close> stores \<^verbatim>\<open>b[i] = byte(v >> (56 - 8*i))\<close>.
  \<open>NewCTRReader\<close> hands both a slice of exactly eight bytes.
\<close>

definition Uint64 :: "byte list \<Rightarrow> 64 word" where
  "Uint64 bs = foldl (\<lambda>acc x. acc * 256 + ucast x) 0 (take 8 bs)"

definition PutUint64 :: "64 word \<Rightarrow> byte list" where
  "PutUint64 v = map (\<lambda>i. ucast (drop_bit (8 * (7 - i)) v)) [0..<8]"

text \<open>
  A \<^verbatim>\<open>cipher.Block\<close> with its key fixed is its \<^verbatim>\<open>Encrypt\<close> function on blocks of
  \<^verbatim>\<open>aes.BlockSize = 16\<close> bytes. The block cipher itself (AES) is a parameter of the
  model; \<open>block_ok\<close> says that it maps 16 bytes to 16 bytes.
\<close>

type_synonym block = "byte list \<Rightarrow> byte list"

definition BlockSize :: nat where
  "BlockSize = 16"

definition block_ok :: "block \<Rightarrow> bool" where
  "block_ok blk \<longleftrightarrow> (\<forall>c. length c = BlockSize \<longrightarrow> length (blk c) = BlockSize)"

text \<open>
  The stream \<^verbatim>\<open>cipher.NewCTR\<close> returns (\<^verbatim>\<open>type ctr struct { b Block; ctr []byte;
  out []byte; outUsed int }\<close>): the block cipher, the counter register and the key-stream
  bytes generated but not yet used (\<^verbatim>\<open>out[outUsed:]\<close>). The library generates several
  blocks ahead; the model generates one block when the buffer is empty, which gives the
  same key stream.
\<close>

record ctrStream =
  ctr_b :: block
  ctr_ctr :: "byte list"
  ctr_out :: "byte list"

text \<open>
  The increment of the counter register in \<^verbatim>\<open>refill\<close>:
  \<^verbatim>\<open>for i := len(x.ctr) - 1; i >= 0; i-- { x.ctr[i]++; if x.ctr[i] != 0 { break } }\<close>.
  The carry runs from the last byte through the whole register. \<open>incRev\<close> is the loop
  on the reversed register.
\<close>

fun incRev :: "byte list \<Rightarrow> byte list" where
  "incRev [] = []"
| "incRev (x # xs) = (if x + 1 \<noteq> 0 then (x + 1) # xs else (x + 1) # incRev xs)"

definition incCounter :: "byte list \<Rightarrow> byte list" where
  "incCounter c = rev (incRev (rev c))"

text \<open>\<^verbatim>\<open>cipher.NewCTR(block, iv)\<close> panics unless the IV is one block long, and copies
  the IV into the counter register.\<close>

definition NewCTR :: "block \<Rightarrow> byte list \<Rightarrow> panic + ctrStream" where
  "NewCTR blk ivBytes =
     (if length ivBytes \<noteq> BlockSize then Inl IVLengthMismatch
      else Inr \<lparr>ctr_b = blk, ctr_ctr = ivBytes, ctr_out = []\<rparr>)"

definition refill :: "ctrStream \<Rightarrow> ctrStream" where
  "refill x = x\<lparr>ctr_out := ctr_b x (ctr_ctr x), ctr_ctr := incCounter (ctr_ctr x)\<rparr>"

text \<open>
  \<^verbatim>\<open>XORKeyStream(dst, src)\<close>: every source byte is XORed with the next key-stream
  byte. The result is \<open>dst\<close> and the stream afterwards. (A block cipher that returns no
  bytes leaves the rest of the source as it is; \<open>block_ok\<close> excludes it.)
\<close>

fun XORKeyStream :: "ctrStream \<Rightarrow> byte list \<Rightarrow> byte list \<times> ctrStream" where
  "XORKeyStream x [] = ([], x)"
| "XORKeyStream x (s # src) =
     (let x1 = (if ctr_out x = [] then refill x else x) in
      case ctr_out x1 of
        [] \<Rightarrow> (s # src, x1)
      | k # ks \<Rightarrow>
          let (dst, x2) = XORKeyStream (x1\<lparr>ctr_out := ks\<rparr>) src
          in ((s XOR k) # dst, x2))"

section \<open>The counter-mode stream (ctrReader, ctrWriter)\<close>

text \<open>
  \<^verbatim>\<open>type ctrReader struct { stream cipher.Stream; reader io.Reader; iv []byte }\<close>.
  As for the repeating-key reader, the wrapped reader is not a field: \<^verbatim>\<open>Read\<close> is
  given the bytes it delivered.
\<close>

record ctrReader =
  stream :: ctrStream
  iv :: "byte list"

text \<open>
  \<^verbatim>\<open>func NewCTRReader(reader io.Reader, block cipher.Block, iv []byte, offset int64)\<close>:
  \<^verbatim>\<open>
  counter := binary.BigEndian.Uint64(iv[len(iv)-8:])
  counter += uint64(offset / aes.BlockSize)
  binary.BigEndian.PutUint64(iv[len(iv)-8:], counter)
  stream := cipher.NewCTR(block, iv)
  if offsetWithinBlock := offset % aes.BlockSize; offsetWithinBlock > 0 {
      dummy := make([]byte, offsetWithinBlock)
      stream.XORKeyStream(dummy, dummy)
  }\<close>
  The slice expression panics for an IV shorter than eight bytes; the conversion
  \<^verbatim>\<open>uint64(...)\<close> of an \<^verbatim>\<open>int64\<close> keeps the bits (\<open>word_of_int\<close>); the addition
  is that of \<^verbatim>\<open>uint64\<close> and wraps modulo \<open>2^64\<close>. The IV slice is updated in place, so
  the reader holds the updated register.
\<close>

definition NewCTRReader :: "block \<Rightarrow> byte list \<Rightarrow> int \<Rightarrow> panic + ctrReader" where
  "NewCTRReader blk iv0 off =
     (if length iv0 < 8 then Inl SliceBoundsOutOfRange
      else
        let counter = Uint64 (drop (length iv0 - 8) iv0);
            counter = counter + word_of_int (quo64 off (int BlockSize));
            iv1 = take (length iv0 - 8) iv0 @ PutUint64 counter
        in case NewCTR blk iv1 of
             Inl e \<Rightarrow> Inl e
           | Inr s \<Rightarrow>
               let offsetWithinBlock = rem64 off (int BlockSize);
                   s1 = (if offsetWithinBlock > 0
                         then snd (XORKeyStream s (replicate (nat offsetWithinBlock) 0))
                         else s)
               in Inr \<lparr>ctrReader.stream = s1, ctrReader.iv = iv1\<rparr>)"

text \<open>\<^verbatim>\<open>func (r *ctrReader) Read(p []byte)\<close>: \<^verbatim>\<open>r.stream.XORKeyStream(p[:n], p[:n])\<close>.\<close>

definition ctrReader_Read :: "ctrReader \<Rightarrow> byte list \<Rightarrow> byte list \<times> ctrReader" where
  "ctrReader_Read r p =
     (let (p', s) = XORKeyStream (ctrReader.stream r) p in (p', r\<lparr>ctrReader.stream := s\<rparr>))"

text \<open>Successive \<^verbatim>\<open>Read\<close> calls, one per chunk the wrapped reader delivers.\<close>

fun ctrReader_ReadAll :: "ctrReader \<Rightarrow> byte list list \<Rightarrow> byte list list \<times> ctrReader" where
  "ctrReader_ReadAll r [] = ([], r)"
| "ctrReader_ReadAll r (c # cs) =
     (let (out, r1) = ctrReader_Read r c;
          (outs, r2) = ctrReader_ReadAll r1 cs
      in (out # outs, r2))"

text \<open>
  The writer. The wrapped \<^verbatim>\<open>io.Writer\<close> is a function from its state and the bytes
  written to an error or the new state; \<open>bufferWrite\<close> is the in-memory writer that
  appends. \<^verbatim>\<open>io.ReadFull(rand.Reader, iv)\<close> is modelled by the bytes \<open>rnd\<close> the random
  source delivers: fewer than sixteen is the error return.
\<close>

datatype io_error = RandReadFailed | WriteFailed | Panicked panic

type_synonym 'w Writer = "'w \<Rightarrow> byte list \<Rightarrow> io_error + 'w"

definition bufferWrite :: "(byte list) Writer" where
  "bufferWrite buf p = Inr (buf @ p)"

record ctrWriter =
  stream :: ctrStream

text \<open>
  \<^verbatim>\<open>func NewCTRWriter(writer io.Writer, block cipher.Block) (*ctrWriter, []byte, error)\<close>
  (the first copy in the sources): a random IV, the stream seeded with it, and
  the raw IV written first. The result is the writer, the IV and the state of the wrapped
  writer.
\<close>

definition NewCTRWriter ::
  "'w Writer \<Rightarrow> 'w \<Rightarrow> block \<Rightarrow> byte list \<Rightarrow> io_error + (ctrWriter \<times> byte list \<times> 'w)" where
  "NewCTRWriter wr w blk rnd =
     (if length rnd < BlockSize then Inl RandReadFailed
      else
        let ivBytes = take BlockSize rnd in
        case NewCTR blk ivBytes of
          Inl e \<Rightarrow> Inl (Panicked e)
        | Inr s \<Rightarrow>
            (case wr w ivBytes of
               Inl e \<Rightarrow> Inl e
             | Inr w1 \<Rightarrow> Inr (\<lparr>ctrWriter.stream = s\<rparr>, ivBytes, w1)))"

text \<open>\<^verbatim>\<open>func (w *ctrWriter) Write(p []byte)\<close>: encrypts \<open>p\<close> into a fresh slice and
  writes it.\<close>

definition ctrWriter_Write ::
  "'w Writer \<Rightarrow> ctrWriter \<Rightarrow> 'w \<Rightarrow> byte list \<Rightarrow> io_error + (ctrWriter \<times> 'w)" where
  "ctrWriter_Write wr cw w p =
     (let (cipher, s) = XORKeyStream (ctrWriter.stream cw) p in
      case wr w cipher of
        Inl e \<Rightarrow> Inl e
      | Inr w1 \<Rightarrow> Inr (cw\<lparr>ctrWriter.stream := s\<rparr>, w1))"

fun ctrWriter_WriteAll ::
  "'w Writer \<Rightarrow> ctrWriter \<Rightarrow> 'w \<Rightarrow> byte list list \<Rightarrow> io_error + (ctrWriter \<times> 'w)" where
  "ctrWriter_WriteAll wr cw w [] = Inr (cw, w)"
| "ctrWriter_WriteAll wr cw w (p # ps) =
     (case ctrWriter_Write wr cw w p of
        Inl e \<Rightarrow> Inl e
      | Inr (cw1, w1) \<Rightarrow> ctrWriter_WriteAll wr cw1 w1 ps)"

text \<open>Creating an object: \<^verbatim>\<open>NewCTRWriter\<close> on an empty in-memory writer, then one
  \<^verbatim>\<open>Write\<close> per plaintext chunk. The result is the stored object.\<close>

definition encryptObject :: "block \<Rightarrow> byte list \<Rightarrow> byte list list \<Rightarrow> io_error + byte list" where
  "encryptObject blk rnd ps =
     (case NewCTRWriter bufferWrite [] blk rnd of
        Inl e \<Rightarrow> Inl e
      | Inr (cw, ivBytes, w) \<Rightarrow>
          (case ctrWriter_WriteAll bufferWrite cw w ps of
             Inl e \<Rightarrow> Inl e
           | Inr (cw1, w1) \<Rightarrow> Inr w1))"

section \<open>Notions used to state the properties of the counter-mode stream\<close>

text \<open>The number a byte string denotes in big-endian order.\<close>

definition be_nat :: "byte list \<Rightarrow> nat" where
  "be_nat bs = foldl (\<lambda>a x. a * 256 + unat x) 0 bs"

text \<open>The key stream of \<open>n\<close> blocks from the counter register \<open>c\<close> on.\<close>

fun keystream :: "block \<Rightarrow> byte list \<Rightarrow> nat \<Rightarrow> byte list" where
  "keystream blk c 0 = []"
| "keystream blk c (Suc n) = blk c @ keystream blk (incCounter c) n"

text \<open>XOR of a byte string with the first bytes of a key stream.\<close>

definition xorBytes :: "byte list \<Rightarrow> byte list \<Rightarrow> byte list" where
  "xorBytes src ks = map (\<lambda>(x, k). x XOR k) (zip src ks)"

text \<open>The register \<open>NewCTRReader\<close> seeds the stream with, for a 16-byte IV and an offset
  \<open>0 \<le> off\<close> (lemma \<open>NewCTRReader_eq\<close>).\<close>

definition seekIV :: "byte list \<Rightarrow> int \<Rightarrow> byte list" where
  "seekIV iv0 off = take 8 iv0 @ PutUint64 (Uint64 (drop 8 iv0) + word_of_int (off div 16))"

text \<open>A small invertible block function, used where a theorem is instantiated at a
  concrete block cipher.\<close>

definition toyBlock :: block where
  "toyBlock c = map (\<lambda>x. x + 1) (rev c)"

section \<open>Go library: strings, strconv and fmt\<close>

text \<open>\<^verbatim>\<open>strings.TrimPrefix(s, prefix)\<close>: \<open>s\<close> without the prefix, or \<open>s\<close> itself.\<close>

definition TrimPrefix :: "string \<Rightarrow> string \<Rightarrow> string" where
  "TrimPrefix s prefix =
     (if take (length prefix) s = prefix then drop (length prefix) s else s)"

text \<open>
  \<^verbatim>\<open>strings.Split(s, sep)\<close> for a separator of one byte: the substrings between the
  separators, always at least one. \<open>SplitFrom\<close> carries the substring read so far.
\<close>

primrec SplitFrom :: "char \<Rightarrow> string \<Rightarrow> string \<Rightarrow> string list" where
  "SplitFrom sep cur [] = [cur]"
| "SplitFrom sep cur (x # xs) =
     (if x = sep then cur # SplitFrom sep [] xs else SplitFrom sep (cur @ [x]) xs)"

definition Split :: "string \<Rightarrow> char \<Rightarrow> string list" where
  "Split s sep = SplitFrom sep [] s"

text \<open>
  \<^verbatim>\<open>strconv.ParseInt(s, 10, 64)\<close>. \<^verbatim>\<open>ParseUint\<close> reads the digits from the left: a byte
  that is not a decimal digit is a syntax error with the value 0; a value beyond
  \<open>2^64 - 1\<close> is a range error with the value \<open>2^64 - 1\<close>, reported as soon as it is
  reached. \<^verbatim>\<open>ParseInt\<close> takes an optional sign first and clamps a value out of the
  \<^verbatim>\<open>int64\<close> range to the nearest bound, with a range error. The handlers ignore the
  error and use the value.
\<close>

datatype NumError = ErrSyntax | ErrRange

definition isDigit :: "char \<Rightarrow> bool" where
  "isDigit c \<longleftrightarrow> 48 \<le> (of_char c :: int) \<and> (of_char c :: int) \<le> 57"

definition digitVal :: "char \<Rightarrow> int" where
  "digitVal c = of_char c - 48"

primrec ParseUintLoop :: "int \<Rightarrow> string \<Rightarrow> int \<times> NumError option" where
  "ParseUintLoop n [] = (n, None)"
| "ParseUintLoop n (c # cs) =
     (if \<not> isDigit c then (0, Some ErrSyntax)
      else if n \<ge> (2 ^ 64 - 1) div 10 + 1 then (2 ^ 64 - 1, Some ErrRange)
      else
        let n1 = n * 10 + digitVal c in
        if n1 > 2 ^ 64 - 1 then (2 ^ 64 - 1, Some ErrRange)
        else ParseUintLoop n1 cs)"

definition ParseUint :: "string \<Rightarrow> int \<times> NumError option" where
  "ParseUint s = (if s = [] then (0, Some ErrSyntax) else ParseUintLoop 0 s)"

definition ParseInt :: "string \<Rightarrow> int \<times> NumError option" where
  "ParseInt s =
     (if s = [] then (0, Some ErrSyntax)
      else
        let neg = (hd s = CHR ''-'');
            s1 = (if hd s = CHR ''+'' \<or> hd s = CHR ''-'' then tl s else s);
            (un, err) = ParseUint s1
        in if err = Some ErrSyntax then (0, err)
           else if \<not> neg \<and> un \<ge> 2 ^ 63 then (2 ^ 63 - 1, Some ErrRange)
           else if neg \<and> un > 2 ^ 63 then (- (2 ^ 63), Some ErrRange)
           else (if neg then - un else un, err))"

text \<open>\<^verbatim>\<open>fmt.Sprintf("%d", i)\<close>: the decimal digits, with a minus sign for a negative
  number.\<close>

fun digits :: "nat \<Rightarrow> string" where
  "digits n =
     (if n < 10 then [char_of (48 + n)]
      else digits (n div 10) @ [char_of (48 + n mod 10)])"

declare digits.simps [simp del]

definition FormatInt :: "int \<Rightarrow> string" where
  "FormatInt i = (if i < 0 then CHR ''-'' # digits (nat (- i)) else digits (nat i))"

text \<open>The bytes of a string, for a response body.\<close>

definition bytesOf :: "string \<Rightarrow> byte list" where
  "bytesOf s = map (\<lambda>c. word_of_nat (of_char c)) s"

section \<open>The blob store and the HTTP layer\<close>

text \<open>
  What the handlers read of a request: the path and three header values
  (\<^verbatim>\<open>r.Header.Get\<close> gives the empty string for a header that is absent).
\<close>

record Request =
  Path :: string
  IfModifiedSince :: string
  Range :: string
  IfUnmodifiedSince :: string

text \<open>
  What the handlers read of the store's answers. A time is a point on the time line, an
  integer. The body of a ranged read is the list of chunks its \<^verbatim>\<open>Read\<close> delivers
  before the end of the stream.
\<close>

datatype s3_error = NotFound | S3Failure string

record HeadObjectOutput =
  ContentLength :: int
  ContentType :: string
  LastModified :: int

record GetObjectOutput =
  Body :: "byte list list"
  ETag :: string
  LastModified :: int

text \<open>
  \<^verbatim>\<open>S3Client.HeadObject(ctx, objectKey)\<close> and
  \<^verbatim>\<open>S3Client.GetRangeObject(ctx, objectKey, requestedRange)\<close>: the store is outside
  the program, so the client is a pair of functions from the arguments of a call to its
  answer. The handlers never issue the same call twice, so answers that change over time
  are covered. Every call a handler issues is recorded, in order.
\<close>

record S3Client =
  HeadObject :: "string \<Rightarrow> s3_error + HeadObjectOutput"
  GetRangeObject :: "string \<Rightarrow> string \<Rightarrow> s3_error + GetObjectOutput"

datatype s3_call = HeadObjectCall string | GetRangeObjectCall string string

record HTTPFileServer =
  s3Client :: S3Client
  xorKey :: "byte list"
  cipherBlock :: block

text \<open>\<^verbatim>\<open>time.Parse(http.TimeFormat, s)\<close> and \<^verbatim>\<open>t.Format(http.TimeFormat)\<close> are
  parameters of the model.\<close>

record TimeFormat =
  parseTime :: "string \<Rightarrow> int option"
  formatTime :: "int \<Rightarrow> string"

text \<open>
  A response: the status, the headers set and the body. The body is the bytes written,
  or the panic that ended the copy after the status had been written. A handler that
  panics before writing a status has the status 0.
\<close>

record Response =
  status :: nat
  header :: "(string \<times> string) list"
  body :: "panic + byte list"

definition WriteHeader :: "nat \<Rightarrow> Response" where
  "WriteHeader code = \<lparr>status = code, header = [], body = Inr []\<rparr>"

text \<open>\<^verbatim>\<open>http.Error(w, msg, code)\<close>: a plain-text response with the message and a
  newline as the body.\<close>

definition http_Error :: "string \<Rightarrow> nat \<Rightarrow> Response" where
  "http_Error msg code =
     \<lparr>status = code,
      header = [(''Content-Type'', ''text/plain; charset=utf-8''),
                (''X-Content-Type-Options'', ''nosniff'')],
      body = Inr (bytesOf msg @ [10])\<rparr>"

definition s3_Error :: "s3_error \<Rightarrow> string" where
  "s3_Error e = (case e of NotFound \<Rightarrow> ''NotFound'' | S3Failure msg \<Rightarrow> msg)"

text \<open>
  The two conditional checks, the same code in both handlers. The result is the response
  of the early return, or \<open>None\<close> when the handler goes on.
  \<^verbatim>\<open>
  if ifModifiedSince != "" {
      parseTime, err := time.Parse(http.TimeFormat, ifModifiedSince)
      if err != nil { http.Error(w, "invalid If-Modified-Since header", 400); return }
      if !headObj.LastModified.After(parseTime) { w.WriteHeader(304); return }
  }\<close>
\<close>

definition checkIfModifiedSince :: "TimeFormat \<Rightarrow> string \<Rightarrow> int \<Rightarrow> Response option" where
  "checkIfModifiedSince tf ifModifiedSince lastModified =
     (if ifModifiedSince \<noteq> [] then
        (case parseTime tf ifModifiedSince of
           None \<Rightarrow> Some (http_Error ''invalid If-Modified-Since header'' 400)
         | Some t \<Rightarrow> if \<not> (t < lastModified) then Some (WriteHeader 304) else None)
      else None)"

text \<open>
  \<^verbatim>\<open>
  if ifUnmodifiedSince != "" {
      parseTime, err := time.Parse(http.TimeFormat, ifUnmodifiedSince)
      if err != nil { http.Error(w, "invalid If-Unmodified-Since header", 400); return }
      if !getObj.LastModified.Before(parseTime) { w.WriteHeader(412); return }
  }\<close>
\<close>

definition checkIfUnmodifiedSince :: "TimeFormat \<Rightarrow> string \<Rightarrow> int \<Rightarrow> Response option" where
  "checkIfUnmodifiedSince tf ifUnmodifiedSince lastModified =
     (if ifUnmodifiedSince \<noteq> [] then
        (case parseTime tf ifUnmodifiedSince of
           None \<Rightarrow> Some (http_Error ''invalid If-Unmodified-Since header'' 400)
         | Some t \<Rightarrow> if \<not> (lastModified < t) then Some (WriteHeader 412) else None)
      else None)"

text \<open>
  The range of \<^verbatim>\<open>ServeXORFile\<close> (lines 101 to 121): \<open>start\<close>, \<open>end\<close> and
  \<open>isPartial\<close> after the \<^verbatim>\<open>Range\<close> header has been read.
  \<^verbatim>\<open>
  var start int64 = 0
  var end int64 = fileSize - 1
  var isPartial bool = false
  if requestedRange != "" {
      isPartial = true
      rangeParts := strings.Split(strings.TrimPrefix(requestedRange, "bytes="), "-")
      if len(rangeParts) == 2 {
          start, _ = strconv.ParseInt(rangeParts[0], 10, 64)
          if start < 0 { start = 0 }
          end, _ = strconv.ParseInt(rangeParts[1], 10, 64)
          if end == 0 || end > fileSize { end = fileSize - 1 }
      }
  }\<close>
\<close>

definition xorRange :: "int \<Rightarrow> string \<Rightarrow> int \<times> int \<times> bool" where
  "xorRange fileSize requestedRange =
     (if requestedRange \<noteq> [] then
        let rangeParts = Split (TrimPrefix requestedRange ''bytes='') CHR ''-'' in
        if length rangeParts = 2 then
          let start = fst (ParseInt (rangeParts ! 0));
              start = (if start < 0 then 0 else start);
              end' = fst (ParseInt (rangeParts ! 1));
              end' = (if end' = 0 \<or> end' > fileSize then sub64 fileSize 1 else end')
          in (start, end', True)
        else (0, sub64 fileSize 1, True)
      else (0, sub64 fileSize 1, False))"

text \<open>The range of \<^verbatim>\<open>ServeCTRFile\<close> (lines 225 to 245): the same code on
  \<^verbatim>\<open>realFileSize\<close>, with \<^verbatim>\<open>end >= realFileSize\<close> in the clamp.\<close>

definition ctrRange :: "int \<Rightarrow> string \<Rightarrow> int \<times> int \<times> bool" where
  "ctrRange realFileSize requestedRange =
     (if requestedRange \<noteq> [] then
        let rangeParts = Split (TrimPrefix requestedRange ''bytes='') CHR ''-'' in
        if length rangeParts = 2 then
          let start = fst (ParseInt (rangeParts ! 0));
              start = (if start < 0 then 0 else start);
              end' = fst (ParseInt (rangeParts ! 1));
              end' = (if end' = 0 \<or> end' \<ge> realFileSize then sub64 realFileSize 1 else end')
          in (start, end', True)
        else (0, sub64 realFileSize 1, True)
      else (0, sub64 realFileSize 1, False))"

text \<open>The headers of a response that serves data (lines 156 to 167 and 283 to 294).\<close>

definition dataHeaders ::
  "TimeFormat \<Rightarrow> HeadObjectOutput \<Rightarrow> GetObjectOutput \<Rightarrow> int \<Rightarrow> int \<Rightarrow> int \<Rightarrow> bool
     \<Rightarrow> (string \<times> string) list" where
  "dataHeaders tf headObj getObj start end' logicalSize isPartial =
     [(''Accept-Ranges'', ''bytes''),
      (''Content-Type'', ContentType headObj),
      (''Content-Length'', FormatInt (add64 (sub64 end' start) 1)),
      (''ETag'', ETag getObj),
      (''Last-Modified'', formatTime tf (GetObjectOutput.LastModified getObj))]
     @ (if isPartial
        then [(''Content-Range'',
               ''bytes '' @ FormatInt start @ ''-'' @ FormatInt end' @ ''/'' @ FormatInt logicalSize)]
        else [])"

text \<open>
  \<^verbatim>\<open>func (h HTTPFileServer) ServeXORFile(w http.ResponseWriter, r *http.Request)\<close>.
  The result is the response and the calls issued to the store.
\<close>

definition ServeXORFile ::
  "TimeFormat \<Rightarrow> HTTPFileServer \<Rightarrow> Request \<Rightarrow> Response \<times> s3_call list" where
  "ServeXORFile tf h r =
     (let objKey = TrimPrefix (Path r) ''/xor/'' in
      case HeadObject (s3Client h) objKey of
        Inl err \<Rightarrow>
          (case err of
             NotFound \<Rightarrow> (WriteHeader 404, [HeadObjectCall objKey])
           | S3Failure msg \<Rightarrow> (http_Error msg 500, [HeadObjectCall objKey]))
      | Inr headObj \<Rightarrow>
          let fileSize = ContentLength headObj in
          case checkIfModifiedSince tf (IfModifiedSince r) (HeadObjectOutput.LastModified headObj) of
            Some resp \<Rightarrow> (resp, [HeadObjectCall objKey])
          | None \<Rightarrow>
              let (start, end', isPartial) = xorRange fileSize (Range r);
                  requestedRange = ''bytes='' @ FormatInt start @ ''-'' @ FormatInt end'
              in
              if start \<ge> end'
              then (http_Error ''requested range not satisfiable'' 416, [HeadObjectCall objKey])
              else
                case GetRangeObject (s3Client h) objKey requestedRange of
                  Inl err \<Rightarrow>
                    (http_Error (s3_Error err) 500,
                     [HeadObjectCall objKey, GetRangeObjectCall objKey requestedRange])
                | Inr getObj \<Rightarrow>
                    (case checkIfUnmodifiedSince tf (IfUnmodifiedSince r)
                            (GetObjectOutput.LastModified getObj) of
                       Some resp \<Rightarrow>
                         (resp, [HeadObjectCall objKey, GetRangeObjectCall objKey requestedRange])
                     | None \<Rightarrow>
                         let xorReader = NewXorReader (xorKey h) start in
                         (\<lparr>status = (if isPartial then 206 else 200),
                           header = dataHeaders tf headObj getObj start end' fileSize isPartial,
                           body = (case xorReader_ReadAll xorReader (Body getObj) of
                                     Inl e \<Rightarrow> Inl e
                                   | Inr (outs, r1) \<Rightarrow> Inr (concat outs))\<rparr>,
                          [HeadObjectCall objKey, GetRangeObjectCall objKey requestedRange])))"

text \<open>
  \<^verbatim>\<open>func (h HTTPFileServer) ServeCTRFile(w http.ResponseWriter, r *http.Request)\<close>.
  The IV is fetched (\<^verbatim>\<open>bytes=0-15\<close>) and read in full before the \<^verbatim>\<open>Range\<close> header
  is looked at; the body range is shifted by the block size; the reader is seeded at the
  plaintext \<open>start\<close>.
\<close>

definition ServeCTRFile ::
  "TimeFormat \<Rightarrow> HTTPFileServer \<Rightarrow> Request \<Rightarrow> Response \<times> s3_call list" where
  "ServeCTRFile tf h r =
     (let objKey = TrimPrefix (Path r) ''/ctr/'' in
      case HeadObject (s3Client h) objKey of
        Inl err \<Rightarrow>
          (case err of
             NotFound \<Rightarrow> (WriteHeader 404, [HeadObjectCall objKey])
           | S3Failure msg \<Rightarrow> (http_Error msg 500, [HeadObjectCall objKey]))
      | Inr headObj \<Rightarrow>
          let fileSize = ContentLength headObj;
              realFileSize = sub64 fileSize (int BlockSize)
          in
          case checkIfModifiedSince tf (IfModifiedSince r) (HeadObjectOutput.LastModified headObj) of
            Some resp \<Rightarrow> (resp, [HeadObjectCall objKey])
          | None \<Rightarrow>
              let ivRange = ''bytes=0-'' @ FormatInt (int BlockSize - 1);
                  ivCalls = [HeadObjectCall objKey, GetRangeObjectCall objKey ivRange]
              in
              case GetRangeObject (s3Client h) objKey ivRange of
                Inl err \<Rightarrow> (http_Error (s3_Error err) 500, ivCalls)
              | Inr ivObj \<Rightarrow>
                  if length (concat (Body ivObj)) < BlockSize
                  then (http_Error ''failed to read iv'' 500, ivCalls)
                  else
                    let ivBytes = take BlockSize (concat (Body ivObj));
                        (start, end', isPartial) = ctrRange realFileSize (Range r);
                        requestedRange =
                          ''bytes='' @ FormatInt (add64 start (int BlockSize))
                            @ ''-'' @ FormatInt (add64 end' (int BlockSize));
                        calls = ivCalls @ [GetRangeObjectCall objKey requestedRange]
                    in
                    if start \<ge> end'
                    then (http_Error ''requested range not satisfiable'' 416, ivCalls)
                    else
                      case GetRangeObject (s3Client h) objKey requestedRange of
                        Inl err \<Rightarrow> (http_Error (s3_Error err) 500, calls)
                      | Inr getObj \<Rightarrow>
                          (case checkIfUnmodifiedSince tf (IfUnmodifiedSince r)
                                  (GetObjectOutput.LastModified getObj) of
                             Some resp \<Rightarrow> (resp, calls)
                           | None \<Rightarrow>
                               (case NewCTRReader (cipherBlock h) ivBytes start of
                                  Inl e \<Rightarrow> (\<lparr>status = 0, header = [], body = Inl e\<rparr>, calls)
                                | Inr ctrReader \<Rightarrow>
                                    (\<lparr>status = (if isPartial then 206 else 200),
                                      header = dataHeaders tf headObj getObj start end'
                                                 (sub64 fileSize (int BlockSize)) isPartial,
                                      body = Inr (concat (fst (ctrReader_ReadAll ctrReader
                                                                 (Body getObj))))\<rparr>,
                                     calls))))"

text \<open>A store with one object of the given size, last modified at time 100, whose ranged
  reads deliver the given body; and a time format that reads a decimal number. They are
  used where a theorem is evaluated at a concrete request.\<close>

definition demoClient :: "int \<Rightarrow> byte list list \<Rightarrow> S3Client" where
  "demoClient n chunks =
     \<lparr>HeadObject = (\<lambda>k. Inr \<lparr>ContentLength = n, ContentType = ''application/octet-stream'',
                               HeadObjectOutput.LastModified = 100\<rparr>),
      GetRangeObject = (\<lambda>k rng. Inr \<lparr>Body = chunks, ETag = ''etag'',
                                      GetObjectOutput.LastModified = 100\<rparr>)\<rparr>"

definition demoTime :: TimeFormat where
  "demoTime = \<lparr>parseTime = (\<lambda>s. case ParseInt s of (t, None) \<Rightarrow> Some t | (t, Some e) \<Rightarrow> None),
               formatTime = FormatInt\<rparr>"

definition demoServer :: "int \<Rightarrow> byte list list \<Rightarrow> HTTPFileServer" where
  "demoServer n chunks =
     \<lparr>s3Client = demoClient n chunks, xorKey = [1, 2, 3], cipherBlock = toyBlock\<rparr>"

definition demoIV :: "byte list list" where
  "demoIV = [[1, 2, 3, 4, 5, 6, 7, 8], [9, 10, 11, 12, 13, 14, 15, 16]]"

section \<open>Notions used to state the properties of the handlers\<close>

text \<open>
  A \<^verbatim>\<open>Range\<close> header that the handlers do not read as a range: it does not split
  into exactly two parts around \<^verbatim>\<open>-\<close>, or both parts fail to parse with a syntax
  error.
\<close>

definition malformedRange :: "string \<Rightarrow> bool" where
  "malformedRange hdr =
     (let parts = Split (TrimPrefix hdr ''bytes='') CHR ''-'' in
      length parts \<noteq> 2
      \<or> (snd (ParseInt (parts ! 0)) = Some ErrSyntax \<and> snd (ParseInt (parts ! 1)) = Some ErrSyntax))"

chapter \<open>Lemmas and theorems\<close>

section \<open>Integer arithmetic of the model\<close>

lemma wrap64_id: "- (2 ^ 63) \<le> x \<Longrightarrow> x < 2 ^ 63 \<Longrightarrow> wrap64 x = x"
  by (simp add: wrap64_def)

lemma rem64_nonneg: "0 \<le> a \<Longrightarrow> 0 < b \<Longrightarrow> rem64 a b = a mod b"
  by (cases "a = 0") (simp_all add: rem64_def)

lemma add64_add64: "add64 (add64 a b) c = add64 a (b + c)"
  by (simp add: add64_def wrap64_def algebra_simps mod_simps)

section \<open>The repeating-key loop\<close>

lemma xorLoop_length: "xorLoop k off i ps = Inr out \<Longrightarrow> length out = length ps"
  by (induction ps arbitrary: i out) (auto simp: Let_def split: if_splits sum.splits)

text \<open>With a non-empty key and a cursor that stays within the non-negative
  \<^verbatim>\<open>int64\<close> range the loop completes and byte \<open>j\<close> is XORed with the key byte at
  \<open>(off + i + j) mod L\<close>.\<close>

lemma xorLoop_index:
  assumes "k \<noteq> []" and "0 \<le> off + i" and "off + i + int (length ps) \<le> 2 ^ 63"
  shows "\<exists>out. xorLoop k off i ps = Inr out \<and> length out = length ps \<and>
           (\<forall>j<length ps. out ! j = ps ! j XOR k ! (nat (off + i + int j) mod length k))"
  using assms
proof (induction ps arbitrary: i)
  case Nil
  then show ?case by simp
next
  case (Cons p ps)
  have len: "0 < int (length k)" using Cons.prems(1) by simp
  have a: "add64 off i = off + i"
    unfolding add64_def using Cons.prems(2,3) by (intro wrap64_id) auto
  have r: "rem64 (add64 off i) (int (length k)) = (off + i) mod int (length k)"
    using a rem64_nonneg [OF Cons.prems(2) len] by simp
  have r0: "0 \<le> (off + i) mod int (length k)" and r1: "(off + i) mod int (length k) < int (length k)"
    using len by simp_all
  have "0 \<le> off + (i + 1)" and "off + (i + 1) + int (length ps) \<le> 2 ^ 63"
    using Cons.prems(2,3) by simp_all
  from Cons.IH [OF Cons.prems(1) this]
  obtain out where out: "xorLoop k off (i + 1) ps = Inr out" "length out = length ps"
    "\<forall>j<length ps. out ! j = ps ! j XOR k ! (nat (off + (i + 1) + int j) mod length k)"
    by blast
  have n: "nat ((off + i) mod int (length k)) = nat (off + i) mod length k"
    using Cons.prems(2) by (simp add: nat_mod_distrib)
  have nr: "\<not> ((off + i) mod int (length k) < 0 \<or> int (length k) \<le> (off + i) mod int (length k))"
    using r0 r1 by linarith
  have eq: "xorLoop k off i (p # ps) = Inr ((p XOR k ! (nat (off + i) mod length k)) # out)"
    unfolding xorLoop.simps Let_def r using nr out(1) n Cons.prems(1) by simp
  have "\<forall>j<length (p # ps). ((p XOR k ! (nat (off + i) mod length k)) # out) ! j
          = (p # ps) ! j XOR k ! (nat (off + i + int j) mod length k)"
  proof (intro allI impI)
    fix j assume "j < length (p # ps)"
    show "((p XOR k ! (nat (off + i) mod length k)) # out) ! j
          = (p # ps) ! j XOR k ! (nat (off + i + int j) mod length k)"
    proof (cases j)
      case 0
      then show ?thesis by simp
    next
      case (Suc j')
      then have "j' < length ps" using \<open>j < length (p # ps)\<close> by simp
      moreover have "off + (i + 1) + int j' = off + i + int (Suc j')" by simp
      ultimately show ?thesis using out(3) Suc by (metis nth_Cons_Suc)
    qed
  qed
  with eq out(2) show ?case by simp
qed

text \<open>How the bytes are cut into chunks does not matter: the loop over a concatenation
  is the loop over the first part followed by the loop over the rest, and a cursor moved
  on by \<open>d\<close> is a loop counter moved on by \<open>d\<close>.\<close>

lemma xorLoop_shift: "xorLoop k (add64 off d) i ps = xorLoop k off (d + i) ps"
  by (induction ps arbitrary: i) (simp_all add: Let_def add64_add64 algebra_simps)

lemma xorLoop_append:
  "xorLoop k off i (as @ bs) =
     (case xorLoop k off i as of
        Inl e \<Rightarrow> Inl e
      | Inr as' \<Rightarrow>
          (case xorLoop k off (i + int (length as)) bs of
             Inl e \<Rightarrow> Inl e
           | Inr bs' \<Rightarrow> Inr (as' @ bs')))"
proof (induction as arbitrary: i)
  case Nil
  show ?case by (simp split: sum.splits)
next
  case (Cons a as)
  have e: "i + int (length (a # as)) = i + 1 + int (length as)" by simp
  show ?case
    unfolding e append_Cons xorLoop.simps Let_def Cons.IH [of "i + 1"]
    by (simp split: sum.splits)
qed

lemma xorReader_ReadAll_concat:
  assumes "xorLoop (xorReader.key r) (xorReader.offset r) 0 (concat cs) = Inr out"
    and "- (2 ^ 63) \<le> xorReader.offset r" and "xorReader.offset r < 2 ^ 63"
  shows "\<exists>outs. xorReader_ReadAll r cs =
            Inr (outs, r\<lparr>xorReader.offset := add64 (xorReader.offset r) (int (length (concat cs)))\<rparr>)
          \<and> concat outs = out \<and> map length outs = map length cs"
  using assms
proof (induction cs arbitrary: r out)
  case Nil
  then show ?case by (simp add: add64_def wrap64_id)
next
  case (Cons c cs)
  let ?k = "xorReader.key r" and ?o = "xorReader.offset r"
  from Cons.prems obtain a b where
    a: "xorLoop ?k ?o 0 c = Inr a" and
    b: "xorLoop ?k ?o (int (length c)) (concat cs) = Inr b" and
    ab: "out = a @ b"
    by (auto simp: xorLoop_append split: sum.splits)
  define r1 where "r1 = r\<lparr>xorReader.offset := add64 ?o (int (length c))\<rparr>"
  have rd: "xorReader_Read r c = Inr (a, r1)"
    by (simp add: xorReader_Read_def a r1_def)
  have "xorLoop (xorReader.key r1) (xorReader.offset r1) 0 (concat cs) = Inr b"
    using b by (simp add: r1_def xorLoop_shift)
  moreover have "- (2 ^ 63) \<le> xorReader.offset r1" and "xorReader.offset r1 < 2 ^ 63"
    by (simp_all add: r1_def add64_def wrap64_def)
  ultimately obtain outs where
    outs: "xorReader_ReadAll r1 cs =
       Inr (outs, r1\<lparr>xorReader.offset := add64 (xorReader.offset r1) (int (length (concat cs)))\<rparr>)"
      "concat outs = b" "map length outs = map length cs"
    using Cons.IH [of r1 b] by blast
  have "length a = length c" using a by (rule xorLoop_length)
  with rd outs ab show ?case
    by (simp add: r1_def add64_add64)
qed

lemma concat_chunks_eq:
  "map length xs = map length ys \<Longrightarrow> concat xs = concat ys \<Longrightarrow> xs = ys"
proof (induction xs arbitrary: ys)
  case Nil
  then show ?case by simp
next
  case (Cons x xs)
  then obtain y ys' where ys: "ys = y # ys'" by (cases ys) auto
  with Cons.prems have "length x = length y" and "map length xs = map length ys'"
    and "x @ concat xs = y @ concat ys'" by simp_all
  then show ?case using Cons.IH ys by simp
qed

section \<open>The repeating-key stream: reference transform and faults\<close>

lemma xorReader_ReadAll_ok:
  assumes "k \<noteq> []" and "0 \<le> off" and "off + int (length (concat cs)) < 2 ^ 63"
  shows "\<exists>outs. xorReader_ReadAll (NewXorReader k off) cs
             = Inr (outs, NewXorReader k (off + int (length (concat cs))))
      \<and> map length outs = map length cs
      \<and> (\<forall>i<length (concat cs).
            concat outs ! i = concat cs ! i XOR k ! ((nat off + i) mod length k))"
proof -
  from xorLoop_index [of k off 0 "concat cs"] assms
  obtain out where out: "xorLoop k off 0 (concat cs) = Inr out" "length out = length (concat cs)"
    "\<forall>j<length (concat cs). out ! j = concat cs ! j XOR k ! (nat (off + 0 + int j) mod length k)"
    by auto
  have "xorLoop (xorReader.key (NewXorReader k off)) (xorReader.offset (NewXorReader k off)) 0
          (concat cs) = Inr out"
    using out(1) by (simp add: NewXorReader_def)
  moreover have "- (2 ^ 63) \<le> xorReader.offset (NewXorReader k off)"
    and "xorReader.offset (NewXorReader k off) < 2 ^ 63"
    using assms(2,3) by (simp_all add: NewXorReader_def)
  ultimately obtain outs where outs:
    "xorReader_ReadAll (NewXorReader k off) cs =
       Inr (outs, (NewXorReader k off)\<lparr>xorReader.offset :=
          add64 (xorReader.offset (NewXorReader k off)) (int (length (concat cs)))\<rparr>)"
    "concat outs = out" "map length outs = map length cs"
    using xorReader_ReadAll_concat [of "NewXorReader k off" cs out] by blast
  have w: "add64 off (int (length (concat cs))) = off + int (length (concat cs))"
    unfolding add64_def using assms(2,3) by (intro wrap64_id) auto
  have idx: "\<forall>i<length (concat cs). concat outs ! i = concat cs ! i XOR k ! ((nat off + i) mod length k)"
  proof (intro allI impI)
    fix i assume "i < length (concat cs)"
    moreover have "nat (off + 0 + int i) = nat off + i" using assms(2) by (simp add: nat_add_distrib)
    ultimately show "concat outs ! i = concat cs ! i XOR k ! ((nat off + i) mod length k)"
      using out(3) outs(2) by simp
  qed
  from outs(1) w have "xorReader_ReadAll (NewXorReader k off) cs
             = Inr (outs, NewXorReader k (off + int (length (concat cs))))"
    by (simp add: NewXorReader_def)
  with outs(3) idx show ?thesis by blast
qed

lemma xor_twice: "(b XOR (x::byte)) XOR x = b"
  by (simp add: xor.assoc)

lemma xorWriter_as_reader:
  "xorWriter.key w = xorReader.key r \<Longrightarrow> xorWriter.offset w = xorReader.offset r \<Longrightarrow>
   map_sum id fst (xorWriter_WriteAll w cs) = map_sum id fst (xorReader_ReadAll r cs)"
proof (induction cs arbitrary: w r)
  case Nil
  then show ?case by simp
next
  case (Cons c cs)
  show ?case
  proof (cases "xorLoop (xorReader.key r) (xorReader.offset r) 0 c")
    case (Inl e)
    then show ?thesis using Cons.prems by (simp add: xorWriter_Write_def xorReader_Read_def)
  next
    case (Inr out)
    let ?w1 = "w\<lparr>xorWriter.offset := add64 (xorWriter.offset w) (int (length c))\<rparr>"
    let ?r1 = "r\<lparr>xorReader.offset := add64 (xorReader.offset r) (int (length c))\<rparr>"
    have "map_sum id fst (xorWriter_WriteAll ?w1 cs) = map_sum id fst (xorReader_ReadAll ?r1 cs)"
      using Cons.prems by (intro Cons.IH) simp_all
    then show ?thesis using Cons.prems Inr
      by (auto simp: xorWriter_Write_def xorReader_Read_def split: sum.splits)
  qed
qed

text \<open>
  Claim C4 (repeating-key transform reference), as the code has it. For every non-empty
  key \<open>k\<close> of length \<open>L\<close>, every construction offset \<open>off\<close> with \<open>0 \<le> off\<close>, and
  every sequence of chunks \<open>cs\<close> consumed by successive \<^verbatim>\<open>Read\<close> calls such that
  \<open>off\<close> plus the number of bytes consumed stays below \<open>2^63\<close>: every call completes;
  each output chunk is as long as its input chunk; the \<open>i\<close>-th transformed byte, counted
  from 0 across all calls, is the \<open>i\<close>-th input byte XOR \<open>k[(off + i) mod L]\<close>; after
  any number \<open>n\<close> of calls the cursor is \<open>off\<close> plus the bytes consumed by those calls;
  transforming the output again from the same offset gives the input back (the same
  operation encrypts and decrypts); and the writer, whose cursor starts at 0, computes
  the same bytes as a reader constructed at offset 0.
\<close>

theorem xor_stream_reference:
  assumes "k \<noteq> []" and "0 \<le> off" and "off + int (length (concat cs)) < 2 ^ 63"
  shows "\<exists>outs.
      xorReader_ReadAll (NewXorReader k off) cs
          = Inr (outs, NewXorReader k (off + int (length (concat cs))))
      \<and> map length outs = map length cs
      \<and> (\<forall>i<length (concat cs).
            concat outs ! i = concat cs ! i XOR k ! ((nat off + i) mod length k))
      \<and> (\<forall>n\<le>length cs. \<exists>outs'.
            xorReader_ReadAll (NewXorReader k off) (take n cs)
              = Inr (outs', NewXorReader k (off + int (length (concat (take n cs))))))
      \<and> xorReader_ReadAll (NewXorReader k off) outs
          = Inr (cs, NewXorReader k (off + int (length (concat cs))))
      \<and> map_sum id fst (xorWriter_WriteAll (NewXorWriter k) cs)
          = map_sum id fst (xorReader_ReadAll (NewXorReader k 0) cs)"
proof -
  from xorReader_ReadAll_ok [OF assms] obtain outs where
    o1: "xorReader_ReadAll (NewXorReader k off) cs
          = Inr (outs, NewXorReader k (off + int (length (concat cs))))" and
    o2: "map length outs = map length cs" and
    o3: "\<forall>i<length (concat cs). concat outs ! i = concat cs ! i XOR k ! ((nat off + i) mod length k)"
    by blast
  have len: "length (concat outs) = length (concat cs)"
    using o2 by (simp add: length_concat)
  have pre: "\<forall>n\<le>length cs. \<exists>outs'.
            xorReader_ReadAll (NewXorReader k off) (take n cs)
              = Inr (outs', NewXorReader k (off + int (length (concat (take n cs)))))"
  proof (intro allI impI)
    fix n assume "n \<le> length cs"
    have "length (concat (take n cs)) \<le> length (concat cs)"
      by (metis append_take_drop_id concat_append length_append le_add1)
    then have "off + int (length (concat (take n cs))) < 2 ^ 63" using assms(3) by linarith
    from xorReader_ReadAll_ok [OF assms(1,2) this]
    show "\<exists>outs'. xorReader_ReadAll (NewXorReader k off) (take n cs)
              = Inr (outs', NewXorReader k (off + int (length (concat (take n cs)))))"
      by blast
  qed
  have "off + int (length (concat outs)) < 2 ^ 63" using assms(3) len by simp
  from xorReader_ReadAll_ok [OF assms(1,2) this] obtain dec where
    b1: "xorReader_ReadAll (NewXorReader k off) outs
          = Inr (dec, NewXorReader k (off + int (length (concat outs))))" and
    b2: "map length dec = map length outs" and
    b3: "\<forall>i<length (concat outs). concat dec ! i = concat outs ! i XOR k ! ((nat off + i) mod length k)"
    by blast
  have "concat dec = concat cs"
  proof (rule nth_equalityI)
    show "length (concat dec) = length (concat cs)"
      using b2 o2 by (simp add: length_concat)
  next
    fix i assume "i < length (concat dec)"
    then have i: "i < length (concat cs)" using b2 o2 by (simp add: length_concat)
    then have "concat dec ! i = (concat cs ! i XOR k ! ((nat off + i) mod length k))
                 XOR k ! ((nat off + i) mod length k)"
      using b3 o3 len by simp
    then show "concat dec ! i = concat cs ! i" by (simp add: xor_twice)
  qed
  moreover have "map length dec = map length cs" using b2 o2 by simp
  ultimately have "dec = cs" by (intro concat_chunks_eq)
  with b1 len have inv: "xorReader_ReadAll (NewXorReader k off) outs
          = Inr (cs, NewXorReader k (off + int (length (concat cs))))" by simp
  have wr: "map_sum id fst (xorWriter_WriteAll (NewXorWriter k) cs)
          = map_sum id fst (xorReader_ReadAll (NewXorReader k 0) cs)"
    by (rule xorWriter_as_reader) (simp_all add: NewXorWriter_def NewXorReader_def)
  from o1 o2 o3 pre inv wr show ?thesis by blast
qed


text \<open>The theorem at key \<open>[1, 2]\<close>, offset 3 and the chunks \<open>[10]\<close>, \<open>[20, 30]\<close>.\<close>

theorem xor_stream_reference_witness:
  "[1, 2] \<noteq> ([] :: byte list) \<and> (0::int) \<le> 3
   \<and> 3 + int (length (concat [[10], [20, 30 :: byte]])) < 2 ^ 63
   \<and> xorReader_ReadAll (NewXorReader [1, 2] 3) [[10], [20, 30]]
         = Inr ([[8], [21, 28]], NewXorReader [1, 2] 6)
   \<and> xorReader_ReadAll (NewXorReader [1, 2] 3) [[8], [21, 28]]
         = Inr ([[10], [20, 30]], NewXorReader [1, 2] 6)"
  using xor_stream_reference [of "[1, 2]" 3 "[[10], [20, 30]]"]
  by (simp add: xorReader_Read_def NewXorReader_def add64_def wrap64_def rem64_def)

text \<open>
  Claim C4 as stated quantifies over every construction offset. \<^verbatim>\<open>NewXorReader\<close>
  takes any \<^verbatim>\<open>int64\<close>; with the key \<^verbatim>\<open>"ab"\<close> and the offset \<open>-1\<close> the first
  \<^verbatim>\<open>Read\<close> of one byte computes \<^verbatim>\<open>(-1 + 0) % 2 = -1\<close> and the index expression
  \<^verbatim>\<open>r.key[-1]\<close> panics: no transformed byte is produced.
\<close>

theorem xor_negative_offset_panics:
  "xorReader_ReadAll (NewXorReader [97, 98] (- 1)) [[0]] = Inl IndexOutOfRange"
  by (simp add: xorReader_Read_def NewXorReader_def add64_def wrap64_def rem64_def)

lemma xorLoop_empty_key: "p \<noteq> [] \<Longrightarrow> xorLoop [] off i p = Inl DivideByZero"
  by (cases p) simp_all

section \<open>Big-endian numbers\<close>

lemma be_nat_foldl:
  "foldl (\<lambda>a x. a * 256 + unat (x::byte)) a bs = a * 256 ^ length bs + be_nat bs"
proof (induction bs arbitrary: a)
  case Nil
  show ?case by (simp add: be_nat_def)
next
  case (Cons x bs)
  show ?case
    using Cons.IH [of "a * 256 + unat x"] Cons.IH [of "unat x"]
    by (simp add: be_nat_def algebra_simps)
qed

lemma be_nat_Nil [simp]: "be_nat [] = 0"
  by (simp add: be_nat_def)

lemma be_nat_Cons: "be_nat (x # xs) = unat x * 256 ^ length xs + be_nat xs"
  using be_nat_foldl [of "unat x" xs] by (simp add: be_nat_def)

lemma be_nat_append: "be_nat (xs @ ys) = be_nat xs * 256 ^ length ys + be_nat ys"
  by (induction xs) (simp_all add: be_nat_Cons power_add algebra_simps)

lemma unat_byte_less: "unat (x::byte) < 256"
proof -
  have "unat x < 2 ^ LENGTH(8)" by (rule unsigned_less)
  then show ?thesis by simp
qed

lemma be_nat_less: "be_nat xs < 256 ^ length xs"
proof (induction xs)
  case Nil
  show ?case by simp
next
  case (Cons x xs)
  have "unat x * 256 ^ length xs + be_nat xs < unat x * 256 ^ length xs + 256 ^ length xs"
    using Cons.IH by simp
  also have "\<dots> = (unat x + 1) * 256 ^ length xs" by simp
  also have "\<dots> \<le> 256 * 256 ^ length xs"
    using unat_byte_less [of x] by (intro mult_right_mono) simp_all
  finally show ?case by (simp add: be_nat_Cons)
qed

lemma be_nat_inj:
  "length xs = length ys \<Longrightarrow> be_nat xs = be_nat ys \<Longrightarrow> xs = ys"
proof (induction xs ys rule: list_induct2)
  case Nil
  show ?case by simp
next
  case (Cons x xs y ys)
  let ?m = "(256::nat) ^ length xs"
  have eq: "unat x * ?m + be_nat xs = unat y * ?m + be_nat ys"
    using Cons.prems Cons.hyps by (simp add: be_nat_Cons)
  have lx: "be_nat xs < ?m" by (rule be_nat_less)
  have ly: "be_nat ys < ?m" using be_nat_less [of ys] Cons.hyps by simp
  have "(unat x * ?m + be_nat xs) div ?m = unat x" using lx by simp
  moreover have "(unat y * ?m + be_nat ys) div ?m = unat y" using ly by simp
  ultimately have xy: "unat x = unat y" using eq by simp
  then have "be_nat xs = be_nat ys" using eq by simp
  moreover have "x = y" using xy by (simp add: word_unat_eq_iff)
  ultimately show ?case using Cons.IH by simp
qed

section \<open>The counter increment\<close>

lemma length_incRev [simp]: "length (incRev xs) = length xs"
  by (induction xs) simp_all

lemma length_incCounter [simp]: "length (incCounter c) = length c"
  by (simp add: incCounter_def)

lemma be_nat_snoc: "be_nat (xs @ [x]) = be_nat xs * 256 + unat x"
  by (simp add: be_nat_append be_nat_Cons)

lemma byte_inc_nonzero: "(x::byte) + 1 \<noteq> 0 \<Longrightarrow> unat (x + 1) = unat x + 1"
  using unatSuc [of x] by (simp add: add.commute)

lemma byte_inc_zero: "(x::byte) + 1 = 0 \<Longrightarrow> unat x = 255"
proof -
  assume "x + 1 = 0"
  then have "unat (x + 1) = 0" by simp
  then have "(unat x + 1) mod 256 = 0" by (simp add: unat_word_ariths)
  moreover have "unat x < 256" by (rule unat_byte_less)
  ultimately show ?thesis by presburger
qed

lemma be_nat_incRev:
  "be_nat (rev (incRev xs)) = (be_nat (rev xs) + 1) mod 256 ^ length xs"
proof (induction xs)
  case Nil
  show ?case by simp
next
  case (Cons x xs)
  let ?B = "be_nat (rev xs)"
  have B: "?B < 256 ^ length xs" using be_nat_less [of "rev xs"] by simp
  show ?case
  proof (cases "x + 1 = 0")
    case False
    have x: "unat x + 1 < 256" using byte_inc_nonzero [OF False] unat_byte_less [of "x + 1"] by simp
    have "?B * 256 + (unat x + 1) < 256 ^ length xs * 256"
    proof -
      have "?B * 256 + (unat x + 1) < ?B * 256 + 256" using x by simp
      also have "\<dots> = (?B + 1) * 256" by simp
      also have "\<dots> \<le> 256 ^ length xs * 256" using B by (intro mult_right_mono) simp_all
      finally show ?thesis .
    qed
    then show ?thesis
      using False by (simp add: be_nat_snoc byte_inc_nonzero mult.commute)
  next
    case True
    have x: "unat x = 255" using True by (rule byte_inc_zero)
    have "(?B * 256 + 255 + 1) mod (256 ^ length xs * 256) = ((?B + 1) mod 256 ^ length xs) * 256"
    proof -
      have "?B * 256 + 255 + 1 = (?B + 1) * 256" by simp
      then show ?thesis by (simp only: mult_mod_left)
    qed
    then show ?thesis
      using True x Cons.IH by (simp add: be_nat_snoc mult.commute)
  qed
qed

lemma be_nat_incCounter:
  "be_nat (incCounter c) = (be_nat c + 1) mod 256 ^ length c"
  using be_nat_incRev [of "rev c"] by (simp add: incCounter_def)

lemma length_funpow_incCounter [simp]: "length ((incCounter ^^ q) c) = length c"
  by (induction q) simp_all

lemma be_nat_funpow_incCounter:
  "be_nat ((incCounter ^^ q) c) = (be_nat c + q) mod 256 ^ length c"
proof (induction q)
  case 0
  show ?case using be_nat_less [of c] by simp
next
  case (Suc q)
  show ?case
    by (simp add: be_nat_incCounter Suc.IH mod_simps)
qed

section \<open>Uint64 and PutUint64\<close>

lemma unat_Uint64_foldl:
  "unat (foldl (\<lambda>acc x. acc * 256 + ucast (x::byte)) (a :: 64 word) bs)
     = (unat a * 256 ^ length bs + be_nat bs) mod 2 ^ 64"
proof (induction bs arbitrary: a)
  case Nil
  have "unat a < 2 ^ LENGTH(64)" by (rule unsigned_less)
  then show ?case by simp
next
  case (Cons x bs)
  have u: "unat (ucast x :: 64 word) = unat x"
    using unat_byte_less [of x] by (simp add: unsigned_ucast_eq take_bit_eq_mod)
  have "unat (a * 256 + ucast x) = (unat a * 256 + unat x) mod 2 ^ 64"
    by (simp add: unat_word_ariths u mod_simps)
  then have m: "(unat (a * 256 + ucast x) * 256 ^ length bs + be_nat bs) mod 2 ^ 64
      = ((unat a * 256 + unat x) * 256 ^ length bs + be_nat bs) mod 2 ^ 64"
    by (metis mod_add_left_eq mod_mult_left_eq)
  have e: "(unat a * 256 + unat x) * 256 ^ length bs + be_nat bs
      = unat a * 256 ^ length (x # bs) + be_nat (x # bs)"
    by (simp add: be_nat_Cons algebra_simps)
  have "unat (foldl (\<lambda>acc x. acc * 256 + ucast (x::byte)) a (x # bs))
      = unat (foldl (\<lambda>acc x. acc * 256 + ucast (x::byte)) (a * 256 + ucast x) bs)"
    by simp
  also have "\<dots> = (unat (a * 256 + ucast x) * 256 ^ length bs + be_nat bs) mod 2 ^ 64"
    by (rule Cons.IH)
  also have "\<dots> = (unat a * 256 ^ length (x # bs) + be_nat (x # bs)) mod 2 ^ 64"
    unfolding m e ..
  finally show ?case .
qed

lemma unat_Uint64: "length bs = 8 \<Longrightarrow> unat (Uint64 bs) = be_nat bs"
proof -
  assume l: "length bs = 8"
  have "be_nat bs < 256 ^ 8" using be_nat_less [of bs] l by simp
  then show ?thesis
    using unat_Uint64_foldl [of 0 bs] l by (simp add: Uint64_def)
qed

lemma length_PutUint64 [simp]: "length (PutUint64 v) = 8"
  by (simp add: PutUint64_def)

lemma unat_ucast_drop_bit:
  "unat (ucast (drop_bit n (v :: 64 word)) :: byte) = (unat v div 2 ^ n) mod 256"
proof -
  have "unat (drop_bit n v) = unat v div 2 ^ n"
    unfolding unat_drop_bit_eq by (rule drop_bit_eq_div)
  then show ?thesis
    by (simp only: unsigned_ucast_eq take_bit_eq_mod) simp
qed

lemma be_nat_PutUint64_prefix:
  "k \<le> 8 \<Longrightarrow>
   be_nat (map (\<lambda>i. ucast (drop_bit (8 * (7 - i)) (v :: 64 word)) :: byte) [0..<k])
     = unat v div 256 ^ (8 - k)"
proof (induction k)
  case 0
  have "unat v < 2 ^ LENGTH(64)" by (rule unsigned_less)
  then show ?case by simp
next
  case (Suc k)
  let ?m = "unat v div 2 ^ (8 * (7 - k))"
  have k: "k \<le> 8" "8 - k = Suc (7 - k)" using Suc.prems by simp_all
  have p: "(2::nat) ^ (8 * (7 - k)) = 256 ^ (7 - k)"
    by (simp add: power_mult)
  have "unat v div 256 ^ (8 - k) = unat v div (256 ^ (7 - k) * 256)"
    unfolding k(2) by (simp add: mult.commute)
  also have "\<dots> = unat v div 256 ^ (7 - k) div 256"
    by (rule div_mult2_eq)
  finally have "unat v div 256 ^ (8 - k) = ?m div 256"
    unfolding p .
  then have "be_nat (map (\<lambda>i. ucast (drop_bit (8 * (7 - i)) v) :: byte) [0..<Suc k])
      = (?m div 256) * 256 + ?m mod 256"
    using Suc.IH [OF k(1)] by (simp add: be_nat_snoc unat_ucast_drop_bit)
  also have "\<dots> = ?m" by simp
  also have "\<dots> = unat v div 256 ^ (8 - Suc k)" using p by simp
  finally show ?case .
qed

lemma be_nat_PutUint64: "be_nat (PutUint64 v) = unat v"
  using be_nat_PutUint64_prefix [of 8 v] by (simp add: PutUint64_def)

lemma Uint64_PutUint64: "Uint64 (PutUint64 v) = v"
  by (simp add: word_unat_eq_iff unat_Uint64 be_nat_PutUint64)

section \<open>The key stream\<close>

lemma XORKeyStream_b [simp]: "ctr_b (snd (XORKeyStream x src)) = ctr_b x"
  by (induction x src rule: XORKeyStream.induct)
     (auto simp: Let_def refill_def split: list.splits prod.splits)

lemma XORKeyStream_length_ctr [simp]:
  "length (ctr_ctr (snd (XORKeyStream x src))) = length (ctr_ctr x)"
  by (induction x src rule: XORKeyStream.induct)
     (auto simp: Let_def refill_def split: list.splits prod.splits)

lemma length_keystream:
  "block_ok blk \<Longrightarrow> length c = BlockSize \<Longrightarrow> length (keystream blk c n) = BlockSize * n"
  by (induction n arbitrary: c) (simp_all add: block_ok_def)

lemma keystream_add:
  "keystream blk c (m + n) = keystream blk c m @ keystream blk ((incCounter ^^ m) c) n"
  by (induction m arbitrary: c) (simp_all add: funpow_swap1)

text \<open>The output of \<open>XORKeyStream\<close> is the source XORed with the bytes left in the
  buffer followed by the blocks of the counters to come.\<close>

lemma XORKeyStream_keystream:
  assumes "block_ok (ctr_b x)" and "length (ctr_ctr x) = BlockSize"
    and "length src \<le> length (ctr_out x) + BlockSize * n"
  shows "fst (XORKeyStream x src) = xorBytes src (ctr_out x @ keystream (ctr_b x) (ctr_ctr x) n)"
  using assms
proof (induction src arbitrary: x n)
  case Nil
  show ?case by (simp add: xorBytes_def)
next
  case (Cons s src)
  show ?case
  proof (cases "ctr_out x")
    case Nil
    with Cons.prems(3) obtain m where n: "n = Suc m" by (cases n) auto
    have "length (ctr_b x (ctr_ctr x)) = BlockSize"
      using Cons.prems(1,2) by (simp add: block_ok_def)
    then obtain k ks where kks: "ctr_b x (ctr_ctr x) = k # ks" "length ks = BlockSize - 1"
      by (cases "ctr_b x (ctr_ctr x)") (auto simp: BlockSize_def)
    let ?x1 = "(refill x)\<lparr>ctr_out := ks\<rparr>"
    have "block_ok (ctr_b ?x1)" "length (ctr_ctr ?x1) = BlockSize"
      using Cons.prems(1,2) by (simp_all add: refill_def)
    moreover have "length src \<le> length (ctr_out ?x1) + BlockSize * m"
      using Cons.prems(3) Nil n kks(2) by (simp add: BlockSize_def)
    ultimately have "fst (XORKeyStream ?x1 src)
        = xorBytes src (ctr_out ?x1 @ keystream (ctr_b ?x1) (ctr_ctr ?x1) m)"
      by (rule Cons.IH)
    then show ?thesis
      using Nil n kks(1)
      by (simp add: Let_def refill_def xorBytes_def case_prod_beta)
  next
    case (Cons k ks)
    let ?x1 = "x\<lparr>ctr_out := ks\<rparr>"
    have "block_ok (ctr_b ?x1)" "length (ctr_ctr ?x1) = BlockSize"
      using Cons.prems(1,2) by simp_all
    moreover have "length src \<le> length (ctr_out ?x1) + BlockSize * n"
      using Cons.prems(3) Cons by simp
    ultimately have "fst (XORKeyStream ?x1 src)
        = xorBytes src (ctr_out ?x1 @ keystream (ctr_b ?x1) (ctr_ctr ?x1) n)"
      by (rule Cons.IH)
    then show ?thesis
      using Cons by (simp add: Let_def xorBytes_def case_prod_beta)
  qed
qed

lemma XORKeyStream_append:
  assumes "block_ok (ctr_b x)" and "length (ctr_ctr x) = BlockSize"
  shows "XORKeyStream x (s1 @ s2) =
           (fst (XORKeyStream x s1) @ fst (XORKeyStream (snd (XORKeyStream x s1)) s2),
            snd (XORKeyStream (snd (XORKeyStream x s1)) s2))"
  using assms
proof (induction s1 arbitrary: x)
  case Nil
  show ?case by simp
next
  case (Cons s s1)
  let ?x1 = "if ctr_out x = [] then refill x else x"
  have ne: "ctr_out ?x1 \<noteq> []"
  proof (cases "ctr_out x = []")
    case True
    have "length (ctr_b x (ctr_ctr x)) = BlockSize"
      using Cons.prems by (simp add: block_ok_def)
    then show ?thesis using True by (auto simp: refill_def BlockSize_def)
  next
    case False
    then show ?thesis by simp
  qed
  then obtain k ks where kks: "ctr_out ?x1 = k # ks" by (cases "ctr_out ?x1") auto
  let ?x2 = "?x1\<lparr>ctr_out := ks\<rparr>"
  have "block_ok (ctr_b ?x2)" "length (ctr_ctr ?x2) = BlockSize"
    using Cons.prems by (simp_all add: refill_def)
  then have IH: "XORKeyStream ?x2 (s1 @ s2) =
           (fst (XORKeyStream ?x2 s1) @ fst (XORKeyStream (snd (XORKeyStream ?x2 s1)) s2),
            snd (XORKeyStream (snd (XORKeyStream ?x2 s1)) s2))"
    by (rule Cons.IH)
  have l: "XORKeyStream x (s # s1) =
      ((s XOR k) # fst (XORKeyStream ?x2 s1), snd (XORKeyStream ?x2 s1))"
    using kks by (simp add: Let_def case_prod_beta)
  have r: "XORKeyStream x (s # (s1 @ s2)) =
      ((s XOR k) # fst (XORKeyStream ?x2 (s1 @ s2)), snd (XORKeyStream ?x2 (s1 @ s2)))"
    using kks by (simp add: Let_def case_prod_beta)
  show ?case
    unfolding append_Cons r l IH by simp
qed


section \<open>XOR of byte strings\<close>

lemma length_xorBytes [simp]: "length (xorBytes src ks) = min (length src) (length ks)"
  by (simp add: xorBytes_def)

lemma xorBytes_Nil [simp]: "xorBytes [] ks = []"
  by (simp add: xorBytes_def)

lemma drop_xorBytes: "drop n (xorBytes src ks) = xorBytes (drop n src) (drop n ks)"
  by (simp add: xorBytes_def drop_map drop_zip)

lemma xorBytes_append_left:
  "length a \<le> length ks \<Longrightarrow> drop (length a) (xorBytes (a @ p) ks) = xorBytes p (drop (length a) ks)"
  by (simp add: drop_xorBytes)

lemma xorBytes_twice:
  "length p \<le> length ks \<Longrightarrow> xorBytes (xorBytes p ks) ks = p"
proof (induction p arbitrary: ks)
  case Nil
  show ?case by simp
next
  case (Cons x p)
  then obtain k ks' where "ks = k # ks'" by (cases ks) auto
  with Cons show ?case by (simp add: xorBytes_def xor.assoc)
qed

lemma xor_left_cancel: "(x::byte) XOR a = x XOR c \<Longrightarrow> a = c"
  by (metis bit.xor_left_self)

lemma xorBytes_Cons: "xorBytes (x # p) (a # ks) = (x XOR a) # xorBytes p ks"
  by (simp add: xorBytes_def)

lemma xorBytes_inj:
  "length k1 = length p \<Longrightarrow> length k2 = length p \<Longrightarrow> xorBytes p k1 = xorBytes p k2 \<Longrightarrow> k1 = k2"
proof (induction p arbitrary: k1 k2)
  case Nil
  then show ?case by simp
next
  case (Cons x p)
  from Cons.prems(1) obtain a k1' where k1: "k1 = a # k1'" by (cases k1) auto
  from Cons.prems(2) obtain c k2' where k2: "k2 = c # k2'" by (cases k2) auto
  have "(x XOR a) # xorBytes p k1' = (x XOR c) # xorBytes p k2'"
    using Cons.prems(3) unfolding k1 k2 xorBytes_Cons .
  then have e: "x XOR a = x XOR c" and r: "xorBytes p k1' = xorBytes p k2'"
    by (rule list.inject [THEN iffD1, THEN conjunct1], rule list.inject [THEN iffD1, THEN conjunct2])
  have "a = c" using e by (rule xor_left_cancel)
  moreover have "length k1' = length p" "length k2' = length p"
    using Cons.prems(1,2) unfolding k1 k2 by simp_all
  then have "k1' = k2'" using r by (rule Cons.IH)
  ultimately show ?case by (simp add: k1 k2)
qed

section \<open>Readers\<close>

lemma ctrReader_ReadAll_concat:
  assumes "block_ok (ctr_b (ctrReader.stream r))" and "length (ctr_ctr (ctrReader.stream r)) = BlockSize"
  shows "concat (fst (ctrReader_ReadAll r cs)) = fst (XORKeyStream (ctrReader.stream r) (concat cs))"
  using assms
proof (induction cs arbitrary: r)
  case Nil
  show ?case by simp
next
  case (Cons c cs)
  let ?s = "ctrReader.stream r"
  let ?r1 = "r\<lparr>ctrReader.stream := snd (XORKeyStream ?s c)\<rparr>"
  have "block_ok (ctr_b (ctrReader.stream ?r1))" "length (ctr_ctr (ctrReader.stream ?r1)) = BlockSize"
    using Cons.prems by simp_all
  then have "concat (fst (ctrReader_ReadAll ?r1 cs))
      = fst (XORKeyStream (ctrReader.stream ?r1) (concat cs))"
    by (rule Cons.IH)
  then show ?case
    using XORKeyStream_append [OF Cons.prems, of c "concat cs"]
    by (simp add: ctrReader_Read_def case_prod_beta Let_def)
qed

lemma PutUint64_Uint64: "length bs = 8 \<Longrightarrow> PutUint64 (Uint64 bs) = bs"
  by (rule be_nat_inj) (simp_all add: be_nat_PutUint64 unat_Uint64)

lemma quo64_nonneg: "0 \<le> a \<Longrightarrow> a < 2 ^ 63 \<Longrightarrow> 0 < c \<Longrightarrow> quo64 a c = a div c"
proof -
  assume a: "0 \<le> a" "a < 2 ^ 63" "0 < c"
  have s: "sgn a * sgn c * (\<bar>a\<bar> div \<bar>c\<bar>) = a div c"
    using a by (cases "a = 0") simp_all
  have "0 \<le> a div c" using a by (simp add: pos_imp_zdiv_nonneg_iff)
  moreover have "a div c \<le> a" using zdiv_mono2 [of a 1 c] a by simp
  ultimately show ?thesis
    unfolding quo64_def s using a(2) by (intro wrap64_id) auto
qed

text \<open>What \<open>NewCTRReader\<close> returns for a 16-byte IV and an offset \<open>0 \<le> off < 2^63\<close>.\<close>

lemma NewCTRReader_eq:
  assumes "length iv0 = 16" and "0 \<le> off" and "off < 2 ^ 63"
  shows "NewCTRReader blk iv0 off =
     Inr \<lparr>ctrReader.stream =
            (if 0 < off mod 16
             then snd (XORKeyStream \<lparr>ctr_b = blk, ctr_ctr = seekIV iv0 off, ctr_out = []\<rparr>
                          (replicate (nat (off mod 16)) 0))
             else \<lparr>ctr_b = blk, ctr_ctr = seekIV iv0 off, ctr_out = []\<rparr>),
          ctrReader.iv = seekIV iv0 off\<rparr>"
proof -
  have q: "quo64 off 16 = off div 16"
    using assms(2,3) by (simp add: quo64_nonneg)
  have r: "rem64 off 16 = off mod 16"
    using assms(2) by (simp add: rem64_nonneg)
  show ?thesis
    using assms(1)
    by (simp add: NewCTRReader_def NewCTR_def Let_def seekIV_def BlockSize_def q r)
qed

lemma length_seekIV: "length iv0 = 16 \<Longrightarrow> length (seekIV iv0 off) = 16"
  by (simp add: seekIV_def)

lemma seekIV_zero: "length iv0 = 16 \<Longrightarrow> seekIV iv0 0 = iv0"
proof -
  assume l: "length iv0 = 16"
  then have "PutUint64 (Uint64 (drop 8 iv0)) = drop 8 iv0"
    by (intro PutUint64_Uint64) simp
  then show ?thesis by (simp add: seekIV_def)
qed

lemma be_nat_seekIV:
  assumes "length iv0 = 16" and "0 \<le> off"
  shows "be_nat (seekIV iv0 off)
     = be_nat (take 8 iv0) * 2 ^ 64 + (be_nat (drop 8 iv0) + nat (off div 16)) mod 2 ^ 64"
proof -
  have d: "length (drop 8 iv0) = 8" using assms(1) by simp
  have w: "word_of_int (off div 16) = (word_of_nat (nat (off div 16)) :: 64 word)"
    using assms(2) by (simp add: pos_imp_zdiv_nonneg_iff)
  have "unat (Uint64 (drop 8 iv0) + word_of_int (off div 16))
      = (be_nat (drop 8 iv0) + nat (off div 16)) mod 2 ^ 64"
    unfolding w by (simp add: unat_word_ariths unat_of_nat unat_Uint64 [OF d] mod_simps)
  then show ?thesis
    by (simp add: seekIV_def be_nat_append be_nat_PutUint64)
qed

lemma seekIV_funpow:
  assumes "length iv0 = 16" and "0 \<le> off"
    and "be_nat (drop 8 iv0) + nat (off div 16) < 2 ^ 64"
  shows "seekIV iv0 off = (incCounter ^^ nat (off div 16)) iv0"
proof (rule be_nat_inj)
  show "length (seekIV iv0 off) = length ((incCounter ^^ nat (off div 16)) iv0)"
    using assms(1) by (simp add: length_seekIV)
next
  let ?q = "nat (off div 16)"
  have split: "be_nat iv0 = be_nat (take 8 iv0) * 2 ^ 64 + be_nat (drop 8 iv0)"
    using be_nat_append [of "take 8 iv0" "drop 8 iv0"] assms(1) by simp
  have hi: "be_nat (take 8 iv0) < 2 ^ 64"
    using be_nat_less [of "take 8 iv0"] assms(1) by simp
  have "be_nat iv0 + ?q < 2 ^ 64 * 2 ^ 64"
  proof -
    have "be_nat iv0 + ?q < be_nat (take 8 iv0) * 2 ^ 64 + 2 ^ 64"
      using split assms(3) by simp
    also have "\<dots> = (be_nat (take 8 iv0) + 1) * 2 ^ 64" by simp
    also have "\<dots> \<le> 2 ^ 64 * 2 ^ 64" using hi by (intro mult_right_mono) simp_all
    finally show ?thesis .
  qed
  then have "(be_nat iv0 + ?q) mod 256 ^ length iv0 = be_nat iv0 + ?q"
    using assms(1) by simp
  then show "be_nat (seekIV iv0 off) = be_nat ((incCounter ^^ ?q) iv0)"
    using assms split by (simp add: be_nat_seekIV be_nat_funpow_incCounter)
qed

section \<open>What a reader returns\<close>

lemma XORKeyStream_fresh:
  assumes "block_ok blk" and "length c = BlockSize" and "length src \<le> BlockSize * n"
  shows "fst (XORKeyStream \<lparr>ctr_b = blk, ctr_ctr = c, ctr_out = []\<rparr> src)
           = xorBytes src (keystream blk c n)"
  using XORKeyStream_keystream [of "\<lparr>ctr_b = blk, ctr_ctr = c, ctr_out = []\<rparr>" src n] assms
  by simp

lemma XORKeyStream_skip:
  assumes "block_ok blk" and "length c = BlockSize" and "d + length src \<le> BlockSize * n"
  shows "fst (XORKeyStream
                (snd (XORKeyStream \<lparr>ctr_b = blk, ctr_ctr = c, ctr_out = []\<rparr> (replicate d 0))) src)
           = xorBytes src (drop d (keystream blk c n))"
proof -
  let ?x = "\<lparr>ctr_b = blk, ctr_ctr = c, ctr_out = []\<rparr>"
  let ?dummy = "replicate d (0::byte)"
  have ok: "block_ok (ctr_b ?x)" "length (ctr_ctr ?x) = BlockSize" using assms(1,2) by simp_all
  have len: "length (keystream blk c n) = BlockSize * n"
    using assms(1,2) by (rule length_keystream)
  have all: "fst (XORKeyStream ?x (?dummy @ src)) = xorBytes (?dummy @ src) (keystream blk c n)"
    using assms by (intro XORKeyStream_fresh) simp_all
  have d: "fst (XORKeyStream ?x ?dummy) = xorBytes ?dummy (keystream blk c n)"
    using assms by (intro XORKeyStream_fresh) simp_all
  have ld: "length (fst (XORKeyStream ?x ?dummy)) = d"
    unfolding d using len assms(3) by simp
  have "fst (XORKeyStream ?x (?dummy @ src))
      = fst (XORKeyStream ?x ?dummy) @ fst (XORKeyStream (snd (XORKeyStream ?x ?dummy)) src)"
    using XORKeyStream_append [OF ok, of ?dummy src] by simp
  then have "fst (XORKeyStream (snd (XORKeyStream ?x ?dummy)) src)
      = drop d (fst (XORKeyStream ?x (?dummy @ src)))"
    using ld by simp
  also have "\<dots> = xorBytes src (drop d (keystream blk c n))"
    unfolding all by (simp add: drop_xorBytes)
  finally show ?thesis .
qed

lemma NewCTRReader_stream_ok:
  assumes "length iv0 = 16" and "0 \<le> off" and "off < 2 ^ 63"
    and "NewCTRReader blk iv0 off = Inr r"
  shows "ctr_b (ctrReader.stream r) = blk" and "length (ctr_ctr (ctrReader.stream r)) = BlockSize"
  using assms(4) length_seekIV [OF assms(1), of off]
  unfolding NewCTRReader_eq [OF assms(1,2,3)]
  by (auto simp: BlockSize_def)

lemma ctrReader_Read_keystream:
  assumes "block_ok blk" and "length iv0 = 16" and "0 \<le> off" and "off < 2 ^ 63"
    and "NewCTRReader blk iv0 off = Inr r"
    and "nat (off mod 16) + length p \<le> BlockSize * n"
  shows "fst (XORKeyStream (ctrReader.stream r) p)
           = xorBytes p (drop (nat (off mod 16)) (keystream blk (seekIV iv0 off) n))"
proof -
  have l: "length (seekIV iv0 off) = BlockSize"
    using length_seekIV [OF assms(2)] by (simp add: BlockSize_def)
  show ?thesis
  proof (cases "0 < off mod 16")
    case True
    then have "ctrReader.stream r =
        snd (XORKeyStream \<lparr>ctr_b = blk, ctr_ctr = seekIV iv0 off, ctr_out = []\<rparr>
               (replicate (nat (off mod 16)) 0))"
      using assms(5) unfolding NewCTRReader_eq [OF assms(2,3,4)] by auto
    then show ?thesis
      using XORKeyStream_skip [OF assms(1) l assms(6)] by simp
  next
    case False
    then have z: "off mod 16 = 0" using assms(3) by (simp add: order.order_iff_strict)
    have "ctrReader.stream r = \<lparr>ctr_b = blk, ctr_ctr = seekIV iv0 off, ctr_out = []\<rparr>"
      using assms(5) False unfolding NewCTRReader_eq [OF assms(2,3,4)] by auto
    then show ?thesis
      using XORKeyStream_fresh [OF assms(1) l, of p n] assms(6) z by simp
  qed
qed

lemma ctrReader_ReadAll_keystream:
  assumes "block_ok blk" and "length iv0 = 16" and "0 \<le> off" and "off < 2 ^ 63"
    and "NewCTRReader blk iv0 off = Inr r"
    and "nat (off mod 16) + length (concat cs) \<le> BlockSize * n"
  shows "concat (fst (ctrReader_ReadAll r cs))
           = xorBytes (concat cs) (drop (nat (off mod 16)) (keystream blk (seekIV iv0 off) n))"
proof -
  have "block_ok (ctr_b (ctrReader.stream r))" "length (ctr_ctr (ctrReader.stream r)) = BlockSize"
    using NewCTRReader_stream_ok [OF assms(2,3,4,5)] assms(1) by simp_all
  then have "concat (fst (ctrReader_ReadAll r cs))
      = fst (XORKeyStream (ctrReader.stream r) (concat cs))"
    by (rule ctrReader_ReadAll_concat)
  then show ?thesis
    using ctrReader_Read_keystream [OF assms] by simp
qed

text \<open>
  Claim C2 (counter-mode seek derivation). For every 16-byte IV and every offset
  \<open>0 \<le> off\<close> (an \<^verbatim>\<open>int64\<close>, so \<open>off < 2^63\<close>), \<^verbatim>\<open>NewCTRReader\<close> returns a reader
  whose counter register has the IV's first eight bytes unchanged and whose last eight
  bytes, read as a big-endian 64-bit number, are the IV's low 64 bits plus
  \<open>off div 16\<close> modulo \<open>2^64\<close>; the stream is seeded with that register; and when \<open>off\<close>
  is not block-aligned exactly \<open>off mod 16\<close> key-stream bytes are consumed before the
  first output byte: the bytes a \<^verbatim>\<open>Read\<close> returns are its input XORed with the key
  stream of the register from position \<open>off mod 16\<close> on.
\<close>

theorem ctr_seek_derivation:
  assumes "length iv0 = 16" and "0 \<le> off" and "off < 2 ^ 63"
  shows "\<exists>r. NewCTRReader blk iv0 off = Inr r
      \<and> length (ctrReader.iv r) = 16
      \<and> take 8 (ctrReader.iv r) = take 8 iv0
      \<and> Uint64 (drop 8 (ctrReader.iv r)) = Uint64 (drop 8 iv0) + word_of_int (off div 16)
      \<and> unat (Uint64 (drop 8 (ctrReader.iv r)))
            = (unat (Uint64 (drop 8 iv0)) + nat (off div 16)) mod 2 ^ 64
      \<and> ctrReader.stream r =
            (if off mod 16 = 0 then \<lparr>ctr_b = blk, ctr_ctr = ctrReader.iv r, ctr_out = []\<rparr>
             else snd (XORKeyStream \<lparr>ctr_b = blk, ctr_ctr = ctrReader.iv r, ctr_out = []\<rparr>
                         (replicate (nat (off mod 16)) 0)))
      \<and> (block_ok blk \<longrightarrow>
            (\<forall>p n. nat (off mod 16) + length p \<le> BlockSize * n \<longrightarrow>
               fst (ctrReader_Read r p)
                 = xorBytes p (drop (nat (off mod 16)) (keystream blk (ctrReader.iv r) n))))"
proof -
  define r where "r = \<lparr>ctrReader.stream =
            (if 0 < off mod 16
             then snd (XORKeyStream \<lparr>ctr_b = blk, ctr_ctr = seekIV iv0 off, ctr_out = []\<rparr>
                          (replicate (nat (off mod 16)) 0))
             else \<lparr>ctr_b = blk, ctr_ctr = seekIV iv0 off, ctr_out = []\<rparr>),
          ctrReader.iv = seekIV iv0 off\<rparr>"
  have r: "NewCTRReader blk iv0 off = Inr r"
    unfolding r_def by (rule NewCTRReader_eq [OF assms])
  have i: "ctrReader.iv r = seekIV iv0 off" by (simp add: r_def)
  have m: "0 \<le> off mod 16" by simp
  have w: "word_of_int (off div 16) = (word_of_nat (nat (off div 16)) :: 64 word)"
    using assms(2) by (simp add: pos_imp_zdiv_nonneg_iff)
  have c1: "length (ctrReader.iv r) = 16" unfolding i using assms(1) by (rule length_seekIV)
  have c2: "take 8 (ctrReader.iv r) = take 8 iv0"
    unfolding i using assms(1) by (simp add: seekIV_def)
  have c3: "Uint64 (drop 8 (ctrReader.iv r)) = Uint64 (drop 8 iv0) + word_of_int (off div 16)"
    unfolding i using assms(1) by (simp add: seekIV_def Uint64_PutUint64)
  have c4: "unat (Uint64 (drop 8 (ctrReader.iv r)))
            = (unat (Uint64 (drop 8 iv0)) + nat (off div 16)) mod 2 ^ 64"
    unfolding c3 w by (simp add: unat_word_ariths unat_of_nat mod_simps)
  have c5: "ctrReader.stream r =
            (if off mod 16 = 0 then \<lparr>ctr_b = blk, ctr_ctr = ctrReader.iv r, ctr_out = []\<rparr>
             else snd (XORKeyStream \<lparr>ctr_b = blk, ctr_ctr = ctrReader.iv r, ctr_out = []\<rparr>
                         (replicate (nat (off mod 16)) 0)))"
    using m by (auto simp: r_def)
  have c6: "block_ok blk \<longrightarrow>
            (\<forall>p n. nat (off mod 16) + length p \<le> BlockSize * n \<longrightarrow>
               fst (ctrReader_Read r p)
                 = xorBytes p (drop (nat (off mod 16)) (keystream blk (ctrReader.iv r) n)))"
  proof (intro impI allI)
    fix p :: "byte list" and n
    assume "block_ok blk" and "nat (off mod 16) + length p \<le> BlockSize * n"
    then have "fst (XORKeyStream (ctrReader.stream r) p)
           = xorBytes p (drop (nat (off mod 16)) (keystream blk (seekIV iv0 off) n))"
      using assms r by (intro ctrReader_Read_keystream)
    then show "fst (ctrReader_Read r p)
                 = xorBytes p (drop (nat (off mod 16)) (keystream blk (ctrReader.iv r) n))"
      unfolding i by (simp add: ctrReader_Read_def case_prod_beta)
  qed
  from r c1 c2 c3 c4 c5 c6 show ?thesis by blast
qed

lemma block_ok_toyBlock: "block_ok toyBlock"
  by (simp add: block_ok_def toyBlock_def)

lemma inj_toyBlock: "inj_on toyBlock {c. length c = 16}"
proof (rule inj_onI)
  fix x y :: "byte list"
  assume "toyBlock x = toyBlock y"
  then have "map (\<lambda>x. x + 1) (rev x) = map (\<lambda>x. x + 1) (rev y)"
    by (simp add: toyBlock_def)
  moreover have "inj (\<lambda>x::byte. x + 1)" by (rule injI) simp
  ultimately have "rev x = rev y" by (simp add: inj_map_eq_map)
  then show "x = y" by simp
qed

text \<open>The theorem at the IV \<open>1, 2, ..., 16\<close>, the offset 35 and a two-byte read.\<close>

theorem ctr_seek_derivation_witness:
  "length [1, 2, 3, 4, 5, 6, 7, 8, 9, 10, 11, 12, 13, 14, 15, 16 :: byte] = 16
   \<and> (0::int) \<le> 35 \<and> (35::int) < 2 ^ 63 \<and> block_ok toyBlock
   \<and> (\<exists>r. NewCTRReader toyBlock [1, 2, 3, 4, 5, 6, 7, 8, 9, 10, 11, 12, 13, 14, 15, 16] 35 = Inr r
        \<and> ctrReader.iv r = [1, 2, 3, 4, 5, 6, 7, 8, 9, 10, 11, 12, 13, 14, 15, 18]
        \<and> take 8 (ctrReader.iv r) = [1, 2, 3, 4, 5, 6, 7, 8]
        \<and> Uint64 (drop 8 (ctrReader.iv r)) = Uint64 [9, 10, 11, 12, 13, 14, 15, 16] + 2
        \<and> fst (ctrReader_Read r [0, 0])
             = xorBytes [0, 0] (drop 3 (keystream toyBlock (ctrReader.iv r) 1)))"
proof -
  let ?iv = "[1, 2, 3, 4, 5, 6, 7, 8, 9, 10, 11, 12, 13, 14, 15, 16 :: byte]"
  have h: "length ?iv = 16" "(0::int) \<le> 35" "(35::int) < 2 ^ 63" by simp_all
  from ctr_seek_derivation [OF h, of toyBlock] obtain r where
    r: "NewCTRReader toyBlock ?iv 35 = Inr r" and
    t: "take 8 (ctrReader.iv r) = take 8 ?iv" and
    u: "Uint64 (drop 8 (ctrReader.iv r)) = Uint64 (drop 8 ?iv) + word_of_int (35 div 16)" and
    k: "block_ok toyBlock \<longrightarrow>
            (\<forall>p n. nat (35 mod 16) + length p \<le> BlockSize * n \<longrightarrow>
               fst (ctrReader_Read r p)
                 = xorBytes p (drop (nat (35 mod 16)) (keystream toyBlock (ctrReader.iv r) n)))"
    by blast
  have "nat (35 mod 16) + length [0, 0 :: byte] \<le> BlockSize * 1" by (simp add: BlockSize_def)
  with k block_ok_toyBlock have
    "fst (ctrReader_Read r [0, 0])
       = xorBytes [0, 0] (drop (nat (35 mod 16)) (keystream toyBlock (ctrReader.iv r) 1))"
    by blast
  then have k': "fst (ctrReader_Read r [0, 0])
       = xorBytes [0, 0] (drop 3 (keystream toyBlock (ctrReader.iv r) 1))"
    by simp
  have i: "ctrReader.iv r = [1, 2, 3, 4, 5, 6, 7, 8, 9, 10, 11, 12, 13, 14, 15, 18]"
    using r
    by (simp add: NewCTRReader_def NewCTR_def BlockSize_def quo64_def rem64_def wrap64_def
          PutUint64_def Uint64_def upt_rec Let_def) auto
  from h block_ok_toyBlock r i t u k' show ?thesis by simp
qed

section \<open>Seeking: where it agrees with decrypting from the start\<close>

text \<open>
  Seek consistency holds whenever the addition in \<^verbatim>\<open>NewCTRReader\<close> does not wrap:
  if the IV's low 64 bits plus \<open>off div 16\<close> stay below \<open>2^64\<close>, a reader constructed at
  \<open>off\<close> over the ciphertext from \<open>off\<close> on returns the bytes that a reader constructed
  at 0 over the ciphertext from 0 on returns after its first \<open>off\<close> bytes, however the
  two ciphertexts are cut into chunks.
\<close>

theorem ctr_seek_consistency_no_wrap:
  assumes "block_ok blk" and "length iv0 = 16" and "0 \<le> off" and "off < 2 ^ 63"
    and "unat (Uint64 (drop 8 iv0)) + nat (off div 16) < 2 ^ 64"
    and "concat cs0 = ct" and "concat cs1 = drop (nat off) ct"
  shows "\<exists>r1 r0. NewCTRReader blk iv0 off = Inr r1 \<and> NewCTRReader blk iv0 0 = Inr r0
      \<and> concat (fst (ctrReader_ReadAll r1 cs1))
           = drop (nat off) (concat (fst (ctrReader_ReadAll r0 cs0)))"
proof -
  let ?q = "nat (off div 16)" and ?d = "nat (off mod 16)"
  let ?m = "length ct + 1"
  obtain r1 where r1: "NewCTRReader blk iv0 off = Inr r1"
    using NewCTRReader_eq [OF assms(2,3,4)] by blast
  obtain r0 where r0: "NewCTRReader blk iv0 0 = Inr r0"
    using NewCTRReader_eq [OF assms(2), of 0] by auto
  have o: "nat off = BlockSize * ?q + ?d"
  proof -
    have "off = 16 * (off div 16) + off mod 16" by simp
    then have "nat off = nat (16 * (off div 16)) + nat (off mod 16)"
      using assms(3) by (metis nat_add_distrib pos_imp_zdiv_nonneg_iff pos_mod_sign
          mult_nonneg_nonneg zero_less_numeral zero_le_numeral)
    then show ?thesis using assms(3) by (simp add: BlockSize_def nat_mult_distrib)
  qed
  have d: "?d < 16" using assms(3) by simp
  have "?d + length (concat cs1) \<le> BlockSize * ?m"
    using d assms(7) by (simp add: BlockSize_def)
  then have lhs: "concat (fst (ctrReader_ReadAll r1 cs1))
      = xorBytes (drop (nat off) ct) (drop ?d (keystream blk (seekIV iv0 off) ?m))"
    using ctrReader_ReadAll_keystream [OF assms(1,2,3,4) r1, of cs1 ?m] assms(7) by simp
  have "nat (0 mod 16) + length (concat cs0) \<le> BlockSize * (?q + ?m)"
    using assms(6) by (simp add: BlockSize_def)
  then have "concat (fst (ctrReader_ReadAll r0 cs0))
      = xorBytes ct (drop (nat (0 mod 16)) (keystream blk (seekIV iv0 0) (?q + ?m)))"
    using ctrReader_ReadAll_keystream [OF assms(1,2) _ _ r0, of cs0 "?q + ?m"] assms(6) by simp
  then have rhs0: "concat (fst (ctrReader_ReadAll r0 cs0))
      = xorBytes ct (keystream blk iv0 (?q + ?m))"
    using seekIV_zero [OF assms(2)] by simp
  have s: "seekIV iv0 off = (incCounter ^^ ?q) iv0"
    using assms(2,3,5) by (intro seekIV_funpow) (simp_all add: unat_Uint64)
  have lq: "length (keystream blk iv0 ?q) = BlockSize * ?q"
    using assms(1,2) by (intro length_keystream) (simp_all add: BlockSize_def)
  have "drop (nat off) (keystream blk iv0 (?q + ?m))
      = drop ?d (keystream blk (seekIV iv0 off) ?m)"
    unfolding keystream_add s o using lq by simp
  then have "drop (nat off) (concat (fst (ctrReader_ReadAll r0 cs0)))
      = xorBytes (drop (nat off) ct) (drop ?d (keystream blk (seekIV iv0 off) ?m))"
    unfolding rhs0 by (simp add: drop_xorBytes)
  with lhs r1 r0 show ?thesis by simp
qed

section \<open>Seeking: where the counter wraps\<close>

lemma seekIV_wrap: "seekIV (replicate 8 0 @ replicate 8 255) 16 = replicate 16 0"
  by code_simp

lemma incCounter_wrap:
  "incCounter (replicate 8 0 @ replicate 8 255) = replicate 7 0 @ [1] @ replicate 8 0"
  by code_simp

lemma wrap_differs: "replicate 16 (0::byte) \<noteq> replicate 7 0 @ [1] @ replicate 8 0"
  by code_simp

lemma blocks_differ:
  assumes "inj_on blk {c. length c = 16}"
  shows "blk (replicate 16 0) \<noteq> blk (incCounter (replicate 8 0 @ replicate 8 255))"
proof
  assume e: "blk (replicate 16 0) = blk (incCounter (replicate 8 0 @ replicate 8 255))"
  have "replicate 16 (0::byte) \<in> {c. length c = 16}" by simp
  moreover have "incCounter (replicate 8 0 @ replicate 8 255) \<in> {c. length c = 16}" by simp
  ultimately have "replicate 16 (0::byte) = incCounter (replicate 8 0 @ replicate 8 255)"
    using assms e by (rule inj_onD [rotated 2])
  then show False using wrap_differs by (simp only: incCounter_wrap)
qed

lemma keystream_two:
  "keystream blk c 2 = blk c @ blk (incCounter c)"
  by (simp add: numeral_2_eq_2)

lemma keystream_one: "keystream blk c 1 = blk c"
  by simp

lemma NewCTRReader_total:
  "length iv0 = 16 \<Longrightarrow> 0 \<le> off \<Longrightarrow> off < 2 ^ 63 \<Longrightarrow> \<exists>r. NewCTRReader blk iv0 off = Inr r"
  using NewCTRReader_eq [of iv0 off blk] by blast

lemma seek_wrap_streams:
  assumes "block_ok blk" and "length ct = 32"
    and "ivw = replicate 8 0 @ replicate 8 255"
    and "NewCTRReader blk ivw 16 = Inr r1" and "NewCTRReader blk ivw 0 = Inr r0"
  shows "fst (ctrReader_Read r1 (drop 16 ct)) = xorBytes (drop 16 ct) (blk (replicate 16 0))"
    and "drop 16 (fst (ctrReader_Read r0 ct)) = xorBytes (drop 16 ct) (blk (incCounter ivw))"
proof -
  have l: "length ivw = 16" by (simp add: assms(3))
  have b0: "length (blk ivw) = 16"
    using assms(1) l by (simp add: block_ok_def BlockSize_def)
  have s16: "seekIV ivw 16 = replicate 16 0" unfolding assms(3) by (rule seekIV_wrap)
  have s0: "seekIV ivw 0 = ivw" using l by (rule seekIV_zero)
  have m16: "nat (16 mod 16) = 0" and m0: "nat (0 mod 16) = 0" by simp_all
  have "nat (16 mod 16) + length (drop 16 ct) \<le> BlockSize * 1"
    using assms(2) by (simp add: BlockSize_def)
  from ctrReader_Read_keystream [OF assms(1) l _ _ assms(4) this]
  have "fst (XORKeyStream (ctrReader.stream r1) (drop 16 ct))
      = xorBytes (drop 16 ct) (drop (nat (16 mod 16)) (keystream blk (seekIV ivw 16) 1))"
    by simp
  then have "fst (XORKeyStream (ctrReader.stream r1) (drop 16 ct))
      = xorBytes (drop 16 ct) (blk (replicate 16 0))"
    unfolding s16 m16 keystream_one drop_0 .
  then show "fst (ctrReader_Read r1 (drop 16 ct)) = xorBytes (drop 16 ct) (blk (replicate 16 0))"
    by (simp only: ctrReader_Read_def case_prod_beta Let_def fst_conv)
  have "nat (0 mod 16) + length ct \<le> BlockSize * 2"
    using assms(2) by (simp add: BlockSize_def)
  from ctrReader_Read_keystream [OF assms(1) l _ _ assms(5) this]
  have "fst (XORKeyStream (ctrReader.stream r0) ct)
      = xorBytes ct (drop (nat (0 mod 16)) (keystream blk (seekIV ivw 0) 2))"
    by simp
  then have "fst (XORKeyStream (ctrReader.stream r0) ct)
      = xorBytes ct (blk ivw @ blk (incCounter ivw))"
    unfolding s0 m0 keystream_two drop_0 .
  then have "fst (ctrReader_Read r0 ct) = xorBytes ct (blk ivw @ blk (incCounter ivw))"
    by (simp only: ctrReader_Read_def case_prod_beta Let_def fst_conv)
  then have "drop 16 (fst (ctrReader_Read r0 ct))
      = xorBytes (drop 16 ct) (drop 16 (blk ivw @ blk (incCounter ivw)))"
    by (simp only: drop_xorBytes)
  then show "drop 16 (fst (ctrReader_Read r0 ct)) = xorBytes (drop 16 ct) (blk (incCounter ivw))"
    using b0 by simp
qed

text \<open>
  Claim C1 (counter-mode seek consistency) fails where the addition wraps. The stream
  increments the whole 16-byte register, carrying into the first eight bytes, while
  \<^verbatim>\<open>NewCTRReader\<close> adds the block index to the last eight bytes only. For the IV
  \<^verbatim>\<open>00 00 00 00 00 00 00 00 ff ff ff ff ff ff ff ff\<close> and the offset 16 the reader
  constructed at 16 is seeded with the all-zero register, the reader constructed at 0
  reaches the register \<^verbatim>\<open>00 00 00 00 00 00 00 01 00 .. 00\<close> for the same block, and for
  every block cipher that is injective on blocks (AES under any key is a permutation)
  the two disagree on the 16 bytes from position 16 on, for every 32-byte ciphertext.
\<close>

theorem ctr_seek_diverges_on_counter_wrap:
  assumes "block_ok blk" and "inj_on blk {c. length c = 16}" and "length ct = 32"
  shows "\<exists>r1 r0.
      NewCTRReader blk (replicate 8 0 @ replicate 8 255) 16 = Inr r1
    \<and> NewCTRReader blk (replicate 8 0 @ replicate 8 255) 0 = Inr r0
    \<and> fst (ctrReader_Read r1 (drop 16 ct)) \<noteq> drop 16 (fst (ctrReader_Read r0 ct))"
proof -
  define ivw where "ivw = replicate 8 (0::byte) @ replicate 8 255"
  have l: "length ivw = 16" by (simp add: ivw_def)
  have b1: "length (blk (incCounter ivw)) = 16"
    and bz: "length (blk (replicate 16 0)) = 16"
    using assms(1) l by (simp_all add: block_ok_def BlockSize_def)
  have "\<exists>r. NewCTRReader blk ivw 16 = Inr r" using l by (intro NewCTRReader_total) simp_all
  then obtain r1 where r1: "NewCTRReader blk ivw 16 = Inr r1" ..
  have "\<exists>r. NewCTRReader blk ivw 0 = Inr r" using l by (intro NewCTRReader_total) simp_all
  then obtain r0 where r0: "NewCTRReader blk ivw 0 = Inr r0" ..
  note s = seek_wrap_streams [OF assms(1,3) ivw_def r1 r0]
  have "fst (ctrReader_Read r1 (drop 16 ct)) \<noteq> drop 16 (fst (ctrReader_Read r0 ct))"
  proof
    assume "fst (ctrReader_Read r1 (drop 16 ct)) = drop 16 (fst (ctrReader_Read r0 ct))"
    then have e: "xorBytes (drop 16 ct) (blk (replicate 16 0))
      = xorBytes (drop 16 ct) (blk (incCounter ivw))"
      unfolding s .
    have l1: "length (blk (replicate 16 0)) = length (drop 16 ct)"
      and l2: "length (blk (incCounter ivw)) = length (drop 16 ct)"
      using bz b1 assms(3) by simp_all
    have "blk (replicate 16 0) = blk (incCounter ivw)"
      by (rule xorBytes_inj [OF l1 l2 e])
    then show False using blocks_differ [OF assms(2)] unfolding ivw_def by (rule notE [rotated])
  qed
  with r1 r0 show ?thesis unfolding ivw_def by blast
qed

text \<open>The theorem at the block function \<open>toyBlock\<close> and 32 zero bytes.\<close>

theorem ctr_seek_diverges_on_counter_wrap_witness:
  "block_ok toyBlock \<and> inj_on toyBlock {c. length c = 16}
   \<and> length (replicate 32 (0::byte)) = 32
   \<and> (\<exists>r1 r0.
        NewCTRReader toyBlock (replicate 8 0 @ replicate 8 255) 16 = Inr r1
      \<and> NewCTRReader toyBlock (replicate 8 0 @ replicate 8 255) 0 = Inr r0
      \<and> fst (ctrReader_Read r1 (drop 16 (replicate 32 0)))
           \<noteq> drop 16 (fst (ctrReader_Read r0 (replicate 32 0))))"
  using ctr_seek_diverges_on_counter_wrap [OF block_ok_toyBlock inj_toyBlock, of "replicate 32 0"]
        block_ok_toyBlock inj_toyBlock
  by simp

section \<open>The writer\<close>

lemma ctrWriter_WriteAll_buffer:
  assumes "block_ok (ctr_b (ctrWriter.stream cw))"
    and "length (ctr_ctr (ctrWriter.stream cw)) = BlockSize"
  shows "\<exists>cw1. ctrWriter_WriteAll bufferWrite cw w ps
           = Inr (cw1, w @ fst (XORKeyStream (ctrWriter.stream cw) (concat ps)))"
  using assms
proof (induction ps arbitrary: cw w)
  case Nil
  show ?case by simp
next
  case (Cons p ps)
  let ?s = "ctrWriter.stream cw"
  let ?cw1 = "cw\<lparr>ctrWriter.stream := snd (XORKeyStream ?s p)\<rparr>"
  have wr: "ctrWriter_Write bufferWrite cw w p = Inr (?cw1, w @ fst (XORKeyStream ?s p))"
    by (simp add: ctrWriter_Write_def bufferWrite_def case_prod_beta)
  have "block_ok (ctr_b (ctrWriter.stream ?cw1))"
    and "length (ctr_ctr (ctrWriter.stream ?cw1)) = BlockSize"
    using Cons.prems by simp_all
  then obtain cw2 where
    "ctrWriter_WriteAll bufferWrite ?cw1 (w @ fst (XORKeyStream ?s p)) ps
       = Inr (cw2, (w @ fst (XORKeyStream ?s p))
                    @ fst (XORKeyStream (ctrWriter.stream ?cw1) (concat ps)))"
    using Cons.IH [of ?cw1 "w @ fst (XORKeyStream ?s p)"] by blast
  then show ?case
    using wr XORKeyStream_append [OF Cons.prems, of p "concat ps"] by simp
qed

lemma encryptObject_eq:
  assumes "block_ok blk" and "BlockSize \<le> length rnd"
  shows "encryptObject blk rnd ps =
     Inr (take 16 rnd @ xorBytes (concat ps) (keystream blk (take 16 rnd) (length (concat ps))))"
proof -
  let ?s = "\<lparr>ctr_b = blk, ctr_ctr = take 16 rnd, ctr_out = []\<rparr>"
  have n: "NewCTRWriter bufferWrite [] blk rnd
      = Inr (\<lparr>ctrWriter.stream = ?s\<rparr>, take 16 rnd, take 16 rnd)"
    using assms(2) by (simp add: NewCTRWriter_def NewCTR_def bufferWrite_def BlockSize_def Let_def)
  have l: "length (take 16 rnd) = BlockSize" using assms(2) by (simp add: BlockSize_def)
  obtain cw1 where w: "ctrWriter_WriteAll bufferWrite \<lparr>ctrWriter.stream = ?s\<rparr> (take 16 rnd) ps
           = Inr (cw1, take 16 rnd @ fst (XORKeyStream ?s (concat ps)))"
    using ctrWriter_WriteAll_buffer [of "\<lparr>ctrWriter.stream = ?s\<rparr>" "take 16 rnd" ps] assms(1) l
    by auto
  have "fst (XORKeyStream ?s (concat ps))
      = xorBytes (concat ps) (keystream blk (take 16 rnd) (length (concat ps)))"
    using assms(1) l by (intro XORKeyStream_fresh) (simp_all add: BlockSize_def)
  then show ?thesis
    using n w by (simp add: encryptObject_def)
qed

section \<open>Round trip\<close>

text \<open>
  The round trip holds whenever the addition in \<^verbatim>\<open>NewCTRReader\<close> does not wrap: the
  object the writer produces is the IV followed by as many ciphertext bytes as there are
  plaintext bytes, and a reader seeded from the object's first sixteen bytes at an offset
  \<open>off\<close>, given the stored bytes from \<open>16 + off\<close> on in any chunks, returns the plaintext
  from \<open>off\<close> on.
\<close>

theorem ctr_round_trip_no_wrap:
  assumes "block_ok blk" and "BlockSize \<le> length rnd"
    and "0 \<le> off" and "off < 2 ^ 63"
    and "unat (Uint64 (drop 8 (take 16 rnd))) + nat (off div 16) < 2 ^ 64"
  shows "\<exists>obj. encryptObject blk rnd ps = Inr obj
      \<and> take 16 obj = take 16 rnd
      \<and> length obj = 16 + length (concat ps)
      \<and> (\<forall>cs. concat cs = drop (16 + nat off) obj \<longrightarrow>
            (\<exists>r. NewCTRReader blk (take 16 obj) off = Inr r
               \<and> concat (fst (ctrReader_ReadAll r cs)) = drop (nat off) (concat ps)))"
proof -
  let ?pt = "concat ps"
  define ivb where "ivb = take 16 rnd"
  define K where "K = keystream blk ivb (length ?pt)"
  define C where "C = xorBytes ?pt K"
  define obj where "obj = ivb @ C"
  have l: "length ivb = 16" using assms(2) by (simp add: ivb_def BlockSize_def)
  have lK: "length K = BlockSize * length ?pt"
    unfolding K_def using assms(1) l by (intro length_keystream) (simp_all add: BlockSize_def)
  then have lC: "length C = length ?pt" by (simp add: C_def BlockSize_def)
  have e: "encryptObject blk rnd ps = Inr obj"
    unfolding obj_def C_def K_def ivb_def by (rule encryptObject_eq [OF assms(1,2)])
  have t: "take 16 obj = ivb" using l by (simp add: obj_def)
  have lo: "length obj = 16 + length ?pt" using l lC by (simp add: obj_def)
  have rd: "\<exists>r. NewCTRReader blk (take 16 obj) off = Inr r
               \<and> concat (fst (ctrReader_ReadAll r cs)) = drop (nat off) ?pt"
    if cs: "concat cs = drop (16 + nat off) obj" for cs
  proof -
    have cs': "concat cs = drop (nat off) C" using cs l by (simp add: obj_def)
    have "concat [C] = C" by simp
    from ctr_seek_consistency_no_wrap [OF assms(1) l assms(3,4) _ this cs'] assms(5)
    obtain r1 r0 where r1: "NewCTRReader blk ivb off = Inr r1"
      and r0: "NewCTRReader blk ivb 0 = Inr r0"
      and sk: "concat (fst (ctrReader_ReadAll r1 cs))
           = drop (nat off) (concat (fst (ctrReader_ReadAll r0 [C])))"
      unfolding ivb_def by blast
    have "nat (0 mod 16) + length (concat [C]) \<le> BlockSize * length ?pt"
      using lC by (simp add: BlockSize_def)
    from ctrReader_ReadAll_keystream [OF assms(1) l _ _ r0 this]
    have "concat (fst (ctrReader_ReadAll r0 [C])) = xorBytes C (keystream blk (seekIV ivb 0) (length ?pt))"
      by simp
    then have "concat (fst (ctrReader_ReadAll r0 [C])) = xorBytes (xorBytes ?pt K) K"
      unfolding seekIV_zero [OF l] C_def K_def .
    also have "\<dots> = ?pt"
      using lK by (intro xorBytes_twice) (simp add: BlockSize_def)
    finally have "concat (fst (ctrReader_ReadAll r1 cs)) = drop (nat off) ?pt"
      using sk by simp
    with r1 t show ?thesis by simp
  qed
  from e t lo rd show ?thesis unfolding ivb_def by blast
qed

text \<open>
  Claim C3 (counter-mode round trip) fails where the addition wraps, for the same reason
  as claim C1: when the random source delivers the IV
  \<^verbatim>\<open>00 00 00 00 00 00 00 00 ff ff ff ff ff ff ff ff\<close>, a 32-byte plaintext is encrypted
  and read back at offset 16, the bytes returned differ from the plaintext from position
  16 on, for every block cipher that is injective on blocks.
\<close>

theorem ctr_round_trip_diverges_on_counter_wrap:
  assumes "block_ok blk" and "inj_on blk {c. length c = 16}" and "length pt = 32"
  shows "\<exists>obj r.
      encryptObject blk (replicate 8 0 @ replicate 8 255) [pt] = Inr obj
    \<and> NewCTRReader blk (take 16 obj) 16 = Inr r
    \<and> fst (ctrReader_Read r (drop (16 + 16) obj)) \<noteq> drop 16 pt"
proof -
  define ivw where "ivw = replicate 8 (0::byte) @ replicate 8 255"
  define A where "A = blk (incCounter ivw)"
  define Z where "Z = blk (replicate 16 0)"
  define p2 where "p2 = drop 16 pt"
  have l: "length ivw = 16" by (simp add: ivw_def)
  have t16: "take 16 ivw = ivw" using l by simp
  have b0: "length (blk ivw) = 16" and lA: "length A = 16" and lZ: "length Z = 16"
    using assms(1) l by (simp_all add: block_ok_def BlockSize_def A_def Z_def)
  have lp: "length p2 = 16" using assms(3) by (simp add: p2_def)
  define obj where "obj = ivw @ xorBytes pt (keystream blk ivw 32)"
  have "encryptObject blk ivw [pt]
      = Inr (take 16 ivw @ xorBytes (concat [pt]) (keystream blk (take 16 ivw) (length (concat [pt]))))"
    using assms(1) l by (intro encryptObject_eq) (simp_all add: BlockSize_def)
  then have e: "encryptObject blk ivw [pt] = Inr obj"
    unfolding t16 obj_def using assms(3) by simp
  have k: "keystream blk ivw 32 = (blk ivw @ A) @ keystream blk ((incCounter ^^ 2) ivw) 30"
    using keystream_add [of blk ivw 2 30] by (simp add: keystream_two A_def)
  have "drop 16 (xorBytes pt (keystream blk ivw 32))
      = xorBytes p2 (drop 16 (keystream blk ivw 32))"
    by (simp add: drop_xorBytes p2_def)
  also have "drop 16 (keystream blk ivw 32) = A @ keystream blk ((incCounter ^^ 2) ivw) 30"
    unfolding k using b0 by simp
  also have "xorBytes p2 (A @ keystream blk ((incCounter ^^ 2) ivw) 30) = xorBytes p2 A"
    using lp lA by (simp add: xorBytes_def zip_append2)
  finally have d: "drop (16 + 16) obj = xorBytes p2 A"
    using l by (simp add: obj_def)
  have to: "take 16 obj = ivw" using l by (simp add: obj_def)
  have "\<exists>r. NewCTRReader blk ivw 16 = Inr r" using l by (intro NewCTRReader_total) simp_all
  then obtain r where r: "NewCTRReader blk ivw 16 = Inr r" ..
  have s16: "seekIV ivw 16 = replicate 16 0" unfolding ivw_def by (rule seekIV_wrap)
  have "nat (16 mod 16) + length (xorBytes p2 A) \<le> BlockSize * 1"
    using lp lA by (simp add: BlockSize_def)
  from ctrReader_Read_keystream [OF assms(1) l _ _ r this]
  have "fst (XORKeyStream (ctrReader.stream r) (xorBytes p2 A))
      = xorBytes (xorBytes p2 A) (drop (nat (16 mod 16)) (keystream blk (seekIV ivw 16) 1))"
    by simp
  then have "fst (XORKeyStream (ctrReader.stream r) (xorBytes p2 A)) = xorBytes (xorBytes p2 A) Z"
    unfolding s16 keystream_one Z_def by simp
  then have out: "fst (ctrReader_Read r (xorBytes p2 A)) = xorBytes (xorBytes p2 A) Z"
    by (simp only: ctrReader_Read_def case_prod_beta Let_def fst_conv)
  have ne: "xorBytes (xorBytes p2 A) Z \<noteq> p2"
  proof
    assume "xorBytes (xorBytes p2 A) Z = p2"
    moreover have "xorBytes (xorBytes p2 A) A = p2"
      using lp lA by (intro xorBytes_twice) simp
    ultimately have e2: "xorBytes (xorBytes p2 A) Z = xorBytes (xorBytes p2 A) A" by simp
    have l1: "length Z = length (xorBytes p2 A)" and l2: "length A = length (xorBytes p2 A)"
      using lp lA lZ by simp_all
    have "Z = A" by (rule xorBytes_inj [OF l1 l2 e2])
    then show False using blocks_differ [OF assms(2)] unfolding Z_def A_def ivw_def
      by (rule notE [rotated])
  qed
  have "fst (ctrReader_Read r (drop (16 + 16) obj)) \<noteq> drop 16 pt"
    unfolding d out p2_def [symmetric] by (rule ne)
  with e r to show ?thesis unfolding ivw_def by metis
qed

text \<open>The theorem at the block function \<open>toyBlock\<close> and the plaintext of 32 bytes 7.\<close>

theorem ctr_round_trip_diverges_on_counter_wrap_witness:
  "block_ok toyBlock \<and> inj_on toyBlock {c. length c = 16}
   \<and> length (replicate 32 (7::byte)) = 32
   \<and> (\<exists>obj r.
      encryptObject toyBlock (replicate 8 0 @ replicate 8 255) [replicate 32 7] = Inr obj
    \<and> NewCTRReader toyBlock (take 16 obj) 16 = Inr r
    \<and> fst (ctrReader_Read r (drop (16 + 16) obj)) \<noteq> drop 16 (replicate 32 7))"
  using ctr_round_trip_diverges_on_counter_wrap [OF block_ok_toyBlock inj_toyBlock, of "replicate 32 7"]
        block_ok_toyBlock inj_toyBlock
  by simp
section \<open>The HTTP handlers\<close>

subsection \<open>The Range header\<close>

lemma SplitFrom_no_sep: "sep \<notin> set a \<Longrightarrow> SplitFrom sep cur a = [cur @ a]"
  by (induction a arbitrary: cur) auto

lemma SplitFrom_sep:
  "sep \<notin> set a \<Longrightarrow> SplitFrom sep cur (a @ sep # rest) = (cur @ a) # SplitFrom sep [] rest"
  by (induction a arbitrary: cur) auto

lemma Split_two:
  "sep \<notin> set a \<Longrightarrow> sep \<notin> set c \<Longrightarrow> Split (a @ sep # c) sep = [a, c]"
  by (simp add: Split_def SplitFrom_sep SplitFrom_no_sep)

lemma Split_three:
  "sep \<notin> set a \<Longrightarrow> sep \<notin> set c \<Longrightarrow> Split (sep # a @ sep # c) sep = [[], a, c]"
  using SplitFrom_sep [of sep "[]" "[]" "a @ sep # c"]
  by (simp add: Split_def SplitFrom_sep SplitFrom_no_sep)

lemma TrimPrefix_prefix: "TrimPrefix (p @ s) p = s"
  by (simp add: TrimPrefix_def)

lemma ParseInt_empty: "ParseInt [] = (0, Some ErrSyntax)"
  by (simp add: ParseInt_def)

lemma sub64_one: "0 \<le> n \<Longrightarrow> n < 2 ^ 63 \<Longrightarrow> sub64 n 1 = n - 1"
  unfolding sub64_def by (intro wrap64_id) simp_all

lemma range_parts:
  assumes "CHR ''-'' \<notin> set s" and "CHR ''-'' \<notin> set e"
  shows "Split (TrimPrefix (''bytes='' @ s @ ''-'' @ e) ''bytes='') CHR ''-'' = [s, e]"
proof -
  have "TrimPrefix (''bytes='' @ (s @ ''-'' @ e)) ''bytes='' = s @ ''-'' @ e"
    by (rule TrimPrefix_prefix)
  then show ?thesis using Split_two [OF assms] by simp
qed

lemma range_parts_signed:
  assumes "CHR ''-'' \<notin> set s" and "CHR ''-'' \<notin> set e"
  shows "length (Split (TrimPrefix (''bytes=-'' @ s @ ''-'' @ e) ''bytes='') CHR ''-'') = 3"
proof -
  have "TrimPrefix (''bytes='' @ (''-'' @ s @ ''-'' @ e)) ''bytes='' = ''-'' @ s @ ''-'' @ e"
    by (rule TrimPrefix_prefix)
  then show ?thesis using Split_three [OF assms] by simp
qed

lemma xorRange_signed_start:
  assumes "CHR ''-'' \<notin> set s" and "CHR ''-'' \<notin> set e"
  shows "xorRange n (''bytes=-'' @ s @ ''-'' @ e) = (0, sub64 n 1, True)"
  unfolding xorRange_def using range_parts_signed [OF assms] by (simp add: Let_def)

lemma ctrRange_signed_start:
  assumes "CHR ''-'' \<notin> set s" and "CHR ''-'' \<notin> set e"
  shows "ctrRange n (''bytes=-'' @ s @ ''-'' @ e) = (0, sub64 n 1, True)"
  unfolding ctrRange_def using range_parts_signed [OF assms] by (simp add: Let_def)

lemma xorRange_absent: "xorRange n [] = (0, sub64 n 1, False)"
  by (simp add: xorRange_def)

lemma ctrRange_absent: "ctrRange n [] = (0, sub64 n 1, False)"
  by (simp add: ctrRange_def)

lemma xorRange_two_parts:
  assumes "CHR ''-'' \<notin> set s" and "CHR ''-'' \<notin> set e"
  shows "xorRange n (''bytes='' @ s @ ''-'' @ e) =
     (max 0 (fst (ParseInt s)),
      (if fst (ParseInt e) = 0 \<or> n < fst (ParseInt e) then sub64 n 1 else fst (ParseInt e)),
      True)"
  unfolding xorRange_def range_parts [OF assms]
  by (simp add: Let_def max_def)

lemma ctrRange_two_parts:
  assumes "CHR ''-'' \<notin> set s" and "CHR ''-'' \<notin> set e"
  shows "ctrRange n (''bytes='' @ s @ ''-'' @ e) =
     (max 0 (fst (ParseInt s)),
      (if fst (ParseInt e) = 0 \<or> n \<le> fst (ParseInt e) then sub64 n 1 else fst (ParseInt e)),
      True)"
  unfolding ctrRange_def range_parts [OF assms]
  by (simp add: Let_def max_def)

text \<open>
  Claim C6 (range defaulting and clamping). \<open>n\<close> is the logical size: the stored size
  on the repeating-key route, the stored size minus 16 on the counter-mode route. With no
  \<^verbatim>\<open>Range\<close> header the range is \<open>[0, n - 1]\<close> and the response is not partial. With a
  header \<^verbatim>\<open>bytes=<s>-<e>\<close> the response is partial; \<open>start\<close> is the number parsed
  from \<open>s\<close>, or 0 when \<open>s\<close> is missing or the number is negative (a start written with a
  minus sign gives 0 as well); \<open>end\<close> is \<open>n - 1\<close> when \<open>e\<close> is missing, parses to 0 or
  parses to a number beyond \<open>n\<close> (on the counter-mode route also when it parses to \<open>n\<close>
  itself), and the number parsed otherwise. For the logical size 1000 and
  \<^verbatim>\<open>Range: bytes=500-1500\<close> the range is 500-999 on both routes.
\<close>

theorem range_defaulting_and_clamping:
  assumes "0 \<le> n" and "n < 2 ^ 63"
    and "CHR ''-'' \<notin> set s" and "CHR ''-'' \<notin> set e"
  shows "xorRange n [] = (0, n - 1, False) \<and> ctrRange n [] = (0, n - 1, False)
    \<and> (\<exists>start end'.
          xorRange n (''bytes='' @ s @ ''-'' @ e) = (start, end', True)
        \<and> start = max 0 (fst (ParseInt s)) \<and> (s = [] \<longrightarrow> start = 0)
        \<and> (e = [] \<or> fst (ParseInt e) = 0 \<or> n < fst (ParseInt e) \<longrightarrow> end' = n - 1)
        \<and> (fst (ParseInt e) \<noteq> 0 \<and> fst (ParseInt e) \<le> n \<longrightarrow> end' = fst (ParseInt e)))
    \<and> (\<exists>start end'.
          ctrRange n (''bytes='' @ s @ ''-'' @ e) = (start, end', True)
        \<and> start = max 0 (fst (ParseInt s)) \<and> (s = [] \<longrightarrow> start = 0)
        \<and> (e = [] \<or> fst (ParseInt e) = 0 \<or> n \<le> fst (ParseInt e) \<longrightarrow> end' = n - 1)
        \<and> (fst (ParseInt e) \<noteq> 0 \<and> fst (ParseInt e) < n \<longrightarrow> end' = fst (ParseInt e)))
    \<and> fst (xorRange n (''bytes=-'' @ s @ ''-'' @ e)) = 0
    \<and> fst (ctrRange n (''bytes=-'' @ s @ ''-'' @ e)) = 0
    \<and> xorRange 1000 ''bytes=500-1500'' = (500, 999, True)
    \<and> ctrRange 1000 ''bytes=500-1500'' = (500, 999, True)"
proof -
  note s1 = sub64_one [OF assms(1,2)]
  have a: "xorRange n [] = (0, n - 1, False)" "ctrRange n [] = (0, n - 1, False)"
    by (simp_all add: xorRange_absent ctrRange_absent s1)
  have x: "\<exists>start end'.
          xorRange n (''bytes='' @ s @ ''-'' @ e) = (start, end', True)
        \<and> start = max 0 (fst (ParseInt s)) \<and> (s = [] \<longrightarrow> start = 0)
        \<and> (e = [] \<or> fst (ParseInt e) = 0 \<or> n < fst (ParseInt e) \<longrightarrow> end' = n - 1)
        \<and> (fst (ParseInt e) \<noteq> 0 \<and> fst (ParseInt e) \<le> n \<longrightarrow> end' = fst (ParseInt e))"
    unfolding xorRange_two_parts [OF assms(3,4)] s1
    by (auto simp: ParseInt_empty)
  have c: "\<exists>start end'.
          ctrRange n (''bytes='' @ s @ ''-'' @ e) = (start, end', True)
        \<and> start = max 0 (fst (ParseInt s)) \<and> (s = [] \<longrightarrow> start = 0)
        \<and> (e = [] \<or> fst (ParseInt e) = 0 \<or> n \<le> fst (ParseInt e) \<longrightarrow> end' = n - 1)
        \<and> (fst (ParseInt e) \<noteq> 0 \<and> fst (ParseInt e) < n \<longrightarrow> end' = fst (ParseInt e))"
    unfolding ctrRange_two_parts [OF assms(3,4)] s1
    by (auto simp: ParseInt_empty)
  have ex: "xorRange 1000 ''bytes=500-1500'' = (500, 999, True)"
    "ctrRange 1000 ''bytes=500-1500'' = (500, 999, True)"
    by code_simp+
  have sg: "fst (xorRange n (''bytes=-'' @ s @ ''-'' @ e)) = 0"
    "fst (ctrRange n (''bytes=-'' @ s @ ''-'' @ e)) = 0"
    using xorRange_signed_start [OF assms(3,4), of n] ctrRange_signed_start [OF assms(3,4), of n]
    by simp_all
  from a x c sg ex show ?thesis by blast
qed

text \<open>The theorem at the logical size 1000 and the header \<^verbatim>\<open>bytes=500-1500\<close>.\<close>

theorem range_defaulting_and_clamping_witness:
  "(0::int) \<le> 1000 \<and> (1000::int) < 2 ^ 63
   \<and> CHR ''-'' \<notin> set ''500'' \<and> CHR ''-'' \<notin> set ''1500''
   \<and> xorRange 1000 [] = (0, 999, False) \<and> ctrRange 1000 [] = (0, 999, False)
   \<and> xorRange 1000 (''bytes='' @ ''500'' @ ''-'' @ ''1500'') = (500, 999, True)
   \<and> ctrRange 1000 (''bytes='' @ ''500'' @ ''-'' @ ''1500'') = (500, 999, True)"
proof -
  have h: "(0::int) \<le> 1000" "(1000::int) < 2 ^ 63"
    "CHR ''-'' \<notin> set ''500''" "CHR ''-'' \<notin> set ''1500''"
    by simp_all
  have p: "fst (ParseInt ''1500'') = 1500" "fst (ParseInt ''500'') = 500" by code_simp+
  from range_defaulting_and_clamping [OF h] p h show ?thesis
    by (auto simp: max_def)
qed

subsection \<open>The handlers from the range check on\<close>

lemma status_http_Error [simp]: "status (http_Error msg code) = code"
  by (simp add: http_Error_def)

lemma status_WriteHeader [simp]: "status (WriteHeader code) = code"
  by (simp add: WriteHeader_def)

lemma checkIfModifiedSince_status:
  "checkIfModifiedSince tf hdr lm = Some resp \<Longrightarrow> status resp = 400 \<or> status resp = 304"
  by (auto simp: checkIfModifiedSince_def split: if_splits option.splits)

lemma checkIfUnmodifiedSince_status:
  "checkIfUnmodifiedSince tf hdr lm = Some resp \<Longrightarrow> status resp = 400 \<or> status resp = 412"
  by (auto simp: checkIfUnmodifiedSince_def split: if_splits option.splits)

text \<open>\<open>ServeXORFile\<close> from the range check on, for a request that reaches it.\<close>

lemma ServeXORFile_reaches_check:
  assumes "HeadObject (s3Client h) (TrimPrefix (Path r) ''/xor/'') = Inr headObj"
    and "checkIfModifiedSince tf (IfModifiedSince r) (HeadObjectOutput.LastModified headObj) = None"
    and "xorRange (ContentLength headObj) (Range r) = (start, end', isPartial)"
  shows "ServeXORFile tf h r =
    (let objKey = TrimPrefix (Path r) ''/xor/'';
         requestedRange = ''bytes='' @ FormatInt start @ ''-'' @ FormatInt end'
     in
     if start \<ge> end'
     then (http_Error ''requested range not satisfiable'' 416, [HeadObjectCall objKey])
     else
       case GetRangeObject (s3Client h) objKey requestedRange of
         Inl err \<Rightarrow>
           (http_Error (s3_Error err) 500,
            [HeadObjectCall objKey, GetRangeObjectCall objKey requestedRange])
       | Inr getObj \<Rightarrow>
           (case checkIfUnmodifiedSince tf (IfUnmodifiedSince r)
                   (GetObjectOutput.LastModified getObj) of
              Some resp \<Rightarrow>
                (resp, [HeadObjectCall objKey, GetRangeObjectCall objKey requestedRange])
            | None \<Rightarrow>
                (\<lparr>status = (if isPartial then 206 else 200),
                  header = dataHeaders tf headObj getObj start end' (ContentLength headObj) isPartial,
                  body = (case xorReader_ReadAll (NewXorReader (xorKey h) start) (Body getObj) of
                            Inl e \<Rightarrow> Inl e
                          | Inr (outs, r1) \<Rightarrow> Inr (concat outs))\<rparr>,
                 [HeadObjectCall objKey, GetRangeObjectCall objKey requestedRange])))"
  unfolding ServeXORFile_def Let_def assms sum.case option.case prod.case ..

lemma ServeCTRFile_reaches_check:
  assumes "HeadObject (s3Client h) (TrimPrefix (Path r) ''/ctr/'') = Inr headObj"
    and "checkIfModifiedSince tf (IfModifiedSince r) (HeadObjectOutput.LastModified headObj) = None"
    and "GetRangeObject (s3Client h) (TrimPrefix (Path r) ''/ctr/'')
           (''bytes=0-'' @ FormatInt (int BlockSize - 1)) = Inr ivObj"
    and "\<not> length (concat (Body ivObj)) < BlockSize"
    and "ctrRange (sub64 (ContentLength headObj) (int BlockSize)) (Range r) = (start, end', isPartial)"
  shows "ServeCTRFile tf h r =
    (let objKey = TrimPrefix (Path r) ''/ctr/'';
         ivCalls = [HeadObjectCall objKey,
                    GetRangeObjectCall objKey (''bytes=0-'' @ FormatInt (int BlockSize - 1))];
         requestedRange =
           ''bytes='' @ FormatInt (add64 start (int BlockSize))
             @ ''-'' @ FormatInt (add64 end' (int BlockSize));
         calls = ivCalls @ [GetRangeObjectCall objKey requestedRange]
     in
     if start \<ge> end'
     then (http_Error ''requested range not satisfiable'' 416, ivCalls)
     else
       case GetRangeObject (s3Client h) objKey requestedRange of
         Inl err \<Rightarrow> (http_Error (s3_Error err) 500, calls)
       | Inr getObj \<Rightarrow>
           (case checkIfUnmodifiedSince tf (IfUnmodifiedSince r)
                   (GetObjectOutput.LastModified getObj) of
              Some resp \<Rightarrow> (resp, calls)
            | None \<Rightarrow>
                (case NewCTRReader (cipherBlock h) (take BlockSize (concat (Body ivObj))) start of
                   Inl e \<Rightarrow> (\<lparr>status = 0, header = [], body = Inl e\<rparr>, calls)
                 | Inr ctrReader \<Rightarrow>
                     (\<lparr>status = (if isPartial then 206 else 200),
                       header = dataHeaders tf headObj getObj start end'
                                  (sub64 (ContentLength headObj) (int BlockSize)) isPartial,
                       body = Inr (concat (fst (ctrReader_ReadAll ctrReader (Body getObj))))\<rparr>,
                      calls))))"
  using assms(4) unfolding ServeCTRFile_def Let_def assms(1,2,3,5) sum.case option.case prod.case
  by (simp only: if_False)

lemma demo_key: "TrimPrefix ''/xor/k'' ''/xor/'' = ''k''" "TrimPrefix ''/ctr/k'' ''/ctr/'' = ''k''"
  by code_simp+

lemma FormatInt_15: "FormatInt (int BlockSize - 1) = ''15''"
  by code_simp

text \<open>
  Claim C7 (unsatisfiable-range check). A request reaches the check when the metadata
  fetch succeeds and the \<^verbatim>\<open>If-Modified-Since\<close> check does not end it (and, on the
  counter-mode route, the IV has been fetched and read in full). For such a request,
  with \<open>start\<close> and \<open>end\<close> the range after defaulting and clamping: when \<open>start < end\<close>
  fails, the single-byte case \<open>start = end\<close> included, the status is 416; when
  \<open>start < end\<close> holds, the status is not 416.
\<close>

theorem unsatisfiable_range_check:
  "(HeadObject (s3Client h) (TrimPrefix (Path r) ''/xor/'') = Inr headObj
      \<and> checkIfModifiedSince tf (IfModifiedSince r) (HeadObjectOutput.LastModified headObj) = None
      \<and> xorRange (ContentLength headObj) (Range r) = (start, end', isPartial)
    \<longrightarrow> (end' \<le> start \<longrightarrow> status (fst (ServeXORFile tf h r)) = 416)
      \<and> (start = end' \<longrightarrow> status (fst (ServeXORFile tf h r)) = 416)
      \<and> (start < end' \<longrightarrow> status (fst (ServeXORFile tf h r)) \<noteq> 416))
   \<and> (HeadObject (s3Client h) (TrimPrefix (Path r) ''/ctr/'') = Inr headObj
      \<and> checkIfModifiedSince tf (IfModifiedSince r) (HeadObjectOutput.LastModified headObj) = None
      \<and> GetRangeObject (s3Client h) (TrimPrefix (Path r) ''/ctr/'') ''bytes=0-15'' = Inr ivObj
      \<and> BlockSize \<le> length (concat (Body ivObj))
      \<and> ctrRange (sub64 (ContentLength headObj) (int BlockSize)) (Range r) = (start, end', isPartial)
    \<longrightarrow> (end' \<le> start \<longrightarrow> status (fst (ServeCTRFile tf h r)) = 416)
      \<and> (start = end' \<longrightarrow> status (fst (ServeCTRFile tf h r)) = 416)
      \<and> (start < end' \<longrightarrow> status (fst (ServeCTRFile tf h r)) \<noteq> 416))"
proof (intro conjI impI)
  assume a: "HeadObject (s3Client h) (TrimPrefix (Path r) ''/xor/'') = Inr headObj
      \<and> checkIfModifiedSince tf (IfModifiedSince r) (HeadObjectOutput.LastModified headObj) = None
      \<and> xorRange (ContentLength headObj) (Range r) = (start, end', isPartial)"
  note e = ServeXORFile_reaches_check [OF a [THEN conjunct1] a [THEN conjunct2, THEN conjunct1]
      a [THEN conjunct2, THEN conjunct2]]
  show "status (fst (ServeXORFile tf h r)) = 416" if "end' \<le> start"
    using that unfolding e by (simp add: Let_def)
  show "status (fst (ServeXORFile tf h r)) = 416" if "start = end'"
    using that unfolding e by (simp add: Let_def)
  show "status (fst (ServeXORFile tf h r)) \<noteq> 416" if "start < end'"
    using that unfolding e
    by (auto simp: Let_def split: sum.splits option.splits dest!: checkIfUnmodifiedSince_status)
next
  assume a: "HeadObject (s3Client h) (TrimPrefix (Path r) ''/ctr/'') = Inr headObj
      \<and> checkIfModifiedSince tf (IfModifiedSince r) (HeadObjectOutput.LastModified headObj) = None
      \<and> GetRangeObject (s3Client h) (TrimPrefix (Path r) ''/ctr/'') ''bytes=0-15'' = Inr ivObj
      \<and> BlockSize \<le> length (concat (Body ivObj))
      \<and> ctrRange (sub64 (ContentLength headObj) (int BlockSize)) (Range r) = (start, end', isPartial)"
  then have a1: "HeadObject (s3Client h) (TrimPrefix (Path r) ''/ctr/'') = Inr headObj"
    and a2: "checkIfModifiedSince tf (IfModifiedSince r) (HeadObjectOutput.LastModified headObj) = None"
    and a3: "GetRangeObject (s3Client h) (TrimPrefix (Path r) ''/ctr/'')
           (''bytes=0-'' @ FormatInt (int BlockSize - 1)) = Inr ivObj"
    and a4: "\<not> length (concat (Body ivObj)) < BlockSize"
    and a5: "ctrRange (sub64 (ContentLength headObj) (int BlockSize)) (Range r) = (start, end', isPartial)"
    by (simp_all add: FormatInt_15)
  note e = ServeCTRFile_reaches_check [OF a1 a2 a3 a4 a5]
  show "status (fst (ServeCTRFile tf h r)) = 416" if "end' \<le> start"
    using that unfolding e by (simp add: Let_def)
  show "status (fst (ServeCTRFile tf h r)) = 416" if "start = end'"
    using that unfolding e by (simp add: Let_def)
  show "status (fst (ServeCTRFile tf h r)) \<noteq> 416" if "start < end'"
    using that unfolding e
    by (auto simp: Let_def split: sum.splits option.splits dest!: checkIfUnmodifiedSince_status)
qed

text \<open>The theorem at \<^verbatim>\<open>bytes=300-100\<close> and \<^verbatim>\<open>bytes=7-7\<close> on the repeating-key
  route and at \<^verbatim>\<open>bytes=100-300\<close> on the counter-mode route.\<close>

theorem unsatisfiable_range_check_witness:
  "status (fst (ServeXORFile demoTime (demoServer 1000 demoIV)
      \<lparr>Path = ''/xor/k'', IfModifiedSince = [], Range = ''bytes=300-100'',
        IfUnmodifiedSince = []\<rparr>)) = 416
   \<and> status (fst (ServeXORFile demoTime (demoServer 1000 demoIV)
      \<lparr>Path = ''/xor/k'', IfModifiedSince = [], Range = ''bytes=7-7'',
        IfUnmodifiedSince = []\<rparr>)) = 416
   \<and> status (fst (ServeCTRFile demoTime (demoServer 1016 demoIV)
      \<lparr>Path = ''/ctr/k'', IfModifiedSince = [], Range = ''bytes=100-300'',
        IfUnmodifiedSince = []\<rparr>)) \<noteq> 416"
proof -
  let ?tf = demoTime
  let ?hx = "demoServer 1000 demoIV" and ?hc = "demoServer 1016 demoIV"
  let ?ho = "\<lambda>n. \<lparr>ContentLength = n, ContentType = ''application/octet-stream'',
                  HeadObjectOutput.LastModified = 100\<rparr>"
  let ?r1 = "\<lparr>Path = ''/xor/k'', IfModifiedSince = [], Range = ''bytes=300-100'',
        IfUnmodifiedSince = []\<rparr>"
  let ?r2 = "\<lparr>Path = ''/xor/k'', IfModifiedSince = [], Range = ''bytes=7-7'',
        IfUnmodifiedSince = []\<rparr>"
  let ?r3 = "\<lparr>Path = ''/ctr/k'', IfModifiedSince = [], Range = ''bytes=100-300'',
        IfUnmodifiedSince = []\<rparr>"
  let ?ivo = "\<lparr>Body = demoIV, ETag = ''etag'', GetObjectOutput.LastModified = 100\<rparr>"
  have h1: "HeadObject (s3Client ?hx) (TrimPrefix (Path ?r1) ''/xor/'') = Inr (?ho 1000)
      \<and> checkIfModifiedSince ?tf (IfModifiedSince ?r1) (HeadObjectOutput.LastModified (?ho 1000)) = None
      \<and> xorRange (ContentLength (?ho 1000)) (Range ?r1) = (300, 100, True)"
    by code_simp
  have h2: "HeadObject (s3Client ?hx) (TrimPrefix (Path ?r2) ''/xor/'') = Inr (?ho 1000)
      \<and> checkIfModifiedSince ?tf (IfModifiedSince ?r2) (HeadObjectOutput.LastModified (?ho 1000)) = None
      \<and> xorRange (ContentLength (?ho 1000)) (Range ?r2) = (7, 7, True)"
    by code_simp
  have h3: "HeadObject (s3Client ?hc) (TrimPrefix (Path ?r3) ''/ctr/'') = Inr (?ho 1016)
      \<and> checkIfModifiedSince ?tf (IfModifiedSince ?r3) (HeadObjectOutput.LastModified (?ho 1016)) = None
      \<and> GetRangeObject (s3Client ?hc) (TrimPrefix (Path ?r3) ''/ctr/'') ''bytes=0-15'' = Inr ?ivo
      \<and> BlockSize \<le> length (concat (Body ?ivo))
      \<and> ctrRange (sub64 (ContentLength (?ho 1016)) (int BlockSize)) (Range ?r3) = (100, 300, True)"
    by code_simp
  from unsatisfiable_range_check [of ?hx ?r1 "?ho 1000" ?tf 300 100 True] h1
  have c1: "status (fst (ServeXORFile ?tf ?hx ?r1)) = 416" by simp
  from unsatisfiable_range_check [of ?hx ?r2 "?ho 1000" ?tf 7 7 True] h2
  have c2: "status (fst (ServeXORFile ?tf ?hx ?r2)) = 416" by simp
  from unsatisfiable_range_check [of ?hc ?r3 "?ho 1016" ?tf 100 300 True ?ivo] h3
  have c3: "status (fst (ServeCTRFile ?tf ?hc ?r3)) \<noteq> 416" by simp
  from c1 c2 c3 show ?thesis by simp
qed

lemma ServeXORFile_calls:
  "(status (fst (ServeXORFile tf h r)) = 304 \<longrightarrow>
       snd (ServeXORFile tf h r) = [HeadObjectCall (TrimPrefix (Path r) ''/xor/'')])
   \<and> (status (fst (ServeXORFile tf h r)) = 416 \<longrightarrow>
       snd (ServeXORFile tf h r) = [HeadObjectCall (TrimPrefix (Path r) ''/xor/'')])
   \<and> (status (fst (ServeXORFile tf h r)) = 412 \<longrightarrow>
       (\<exists>rng. snd (ServeXORFile tf h r) =
          [HeadObjectCall (TrimPrefix (Path r) ''/xor/''),
           GetRangeObjectCall (TrimPrefix (Path r) ''/xor/'') rng]))"
proof (cases "HeadObject (s3Client h) (TrimPrefix (Path r) ''/xor/'')")
  case (Inl err)
  then show ?thesis
    by (cases err) (simp_all add: ServeXORFile_def Let_def)
next
  case (Inr headObj)
  show ?thesis
  proof (cases "checkIfModifiedSince tf (IfModifiedSince r) (HeadObjectOutput.LastModified headObj)")
    case (Some resp)
    then have "ServeXORFile tf h r = (resp, [HeadObjectCall (TrimPrefix (Path r) ''/xor/'')])"
      using Inr by (simp add: ServeXORFile_def Let_def)
    then show ?thesis
      using checkIfModifiedSince_status [OF Some] by auto
  next
    case None
    obtain start end' isPartial where
      rg: "xorRange (ContentLength headObj) (Range r) = (start, end', isPartial)"
      by (cases "xorRange (ContentLength headObj) (Range r)") auto
    show ?thesis
      unfolding ServeXORFile_reaches_check [OF Inr None rg]
      by (auto simp: Let_def split: sum.splits option.splits
            dest!: checkIfUnmodifiedSince_status)
  qed
qed

lemma ServeCTRFile_calls:
  "(status (fst (ServeCTRFile tf h r)) = 304 \<longrightarrow>
       snd (ServeCTRFile tf h r) = [HeadObjectCall (TrimPrefix (Path r) ''/ctr/'')])
   \<and> (status (fst (ServeCTRFile tf h r)) = 416 \<longrightarrow>
       snd (ServeCTRFile tf h r) =
          [HeadObjectCall (TrimPrefix (Path r) ''/ctr/''),
           GetRangeObjectCall (TrimPrefix (Path r) ''/ctr/'') ''bytes=0-15''])
   \<and> (status (fst (ServeCTRFile tf h r)) = 412 \<longrightarrow>
       (\<exists>rng. snd (ServeCTRFile tf h r) =
          [HeadObjectCall (TrimPrefix (Path r) ''/ctr/''),
           GetRangeObjectCall (TrimPrefix (Path r) ''/ctr/'') ''bytes=0-15'',
           GetRangeObjectCall (TrimPrefix (Path r) ''/ctr/'') rng]))"
proof (cases "HeadObject (s3Client h) (TrimPrefix (Path r) ''/ctr/'')")
  case (Inl err)
  then show ?thesis
    by (cases err) (simp_all add: ServeCTRFile_def Let_def)
next
  case (Inr headObj)
  show ?thesis
  proof (cases "checkIfModifiedSince tf (IfModifiedSince r) (HeadObjectOutput.LastModified headObj)")
    case (Some resp)
    then have "ServeCTRFile tf h r = (resp, [HeadObjectCall (TrimPrefix (Path r) ''/ctr/'')])"
      using Inr by (simp add: ServeCTRFile_def Let_def)
    then show ?thesis
      using checkIfModifiedSince_status [OF Some] by auto
  next
    case None
    show ?thesis
    proof (cases "GetRangeObject (s3Client h) (TrimPrefix (Path r) ''/ctr/'')
           (''bytes=0-'' @ FormatInt (int BlockSize - 1))")
      case (Inl err)
      then show ?thesis
        using Inr None by (simp add: ServeCTRFile_def Let_def)
    next
      case ivo: (Inr ivObj)
      show ?thesis
      proof (cases "length (concat (Body ivObj)) < BlockSize")
        case True
        then show ?thesis
          using Inr None ivo by (simp add: ServeCTRFile_def Let_def)
      next
        case False
        obtain start end' isPartial where
          rg: "ctrRange (sub64 (ContentLength headObj) (int BlockSize)) (Range r)
                = (start, end', isPartial)"
          by (cases "ctrRange (sub64 (ContentLength headObj) (int BlockSize)) (Range r)") auto
        show ?thesis
          unfolding ServeCTRFile_reaches_check [OF Inr None ivo False rg]
          by (auto simp: Let_def FormatInt_15 split: sum.splits option.splits
                dest!: checkIfUnmodifiedSince_status)
      qed
    qed
  qed
qed

lemma ServeCTRFile_416_calls:
  "status (fst (ServeCTRFile tf h r)) = 416 \<Longrightarrow>
     set (snd (ServeCTRFile tf h r))
       \<subseteq> {HeadObjectCall (TrimPrefix (Path r) ''/ctr/''),
           GetRangeObjectCall (TrimPrefix (Path r) ''/ctr/'') ''bytes=0-15''}"
  using ServeCTRFile_calls [of tf h r] by auto

text \<open>
  Claim C8 (short-circuit), as the code has it. The second component of a handler's
  result lists every call it issued to the store, in order. A request that ends with 304
  (NotModified) has issued the metadata fetch only, on both routes. A request that ends
  with 416 (Unsatisfiable) has issued no ciphertext body fetch: on the repeating-key
  route the metadata fetch only, on the counter-mode route nothing but the metadata
  fetch and the fetch of the range \<^verbatim>\<open>bytes=0-15\<close>. A request that ends with 412
  (PreconditionFailed) has issued the ciphertext body fetch, whose own last-modified
  time the check reads (after the IV fetch on the counter-mode route), and nothing after
  it.
\<close>

theorem short_circuit_fetches:
  "(status (fst (ServeXORFile tf h r)) = 304 \<longrightarrow>
       snd (ServeXORFile tf h r) = [HeadObjectCall (TrimPrefix (Path r) ''/xor/'')])
   \<and> (status (fst (ServeXORFile tf h r)) = 416 \<longrightarrow>
       snd (ServeXORFile tf h r) = [HeadObjectCall (TrimPrefix (Path r) ''/xor/'')])
   \<and> (status (fst (ServeXORFile tf h r)) = 412 \<longrightarrow>
       (\<exists>rng. snd (ServeXORFile tf h r) =
          [HeadObjectCall (TrimPrefix (Path r) ''/xor/''),
           GetRangeObjectCall (TrimPrefix (Path r) ''/xor/'') rng]))
   \<and> (status (fst (ServeCTRFile tf h r)) = 304 \<longrightarrow>
       snd (ServeCTRFile tf h r) = [HeadObjectCall (TrimPrefix (Path r) ''/ctr/'')])
   \<and> (status (fst (ServeCTRFile tf h r)) = 416 \<longrightarrow>
       set (snd (ServeCTRFile tf h r))
         \<subseteq> {HeadObjectCall (TrimPrefix (Path r) ''/ctr/''),
             GetRangeObjectCall (TrimPrefix (Path r) ''/ctr/'') ''bytes=0-15''})
   \<and> (status (fst (ServeCTRFile tf h r)) = 412 \<longrightarrow>
       (\<exists>rng. snd (ServeCTRFile tf h r) =
          [HeadObjectCall (TrimPrefix (Path r) ''/ctr/''),
           GetRangeObjectCall (TrimPrefix (Path r) ''/ctr/'') ''bytes=0-15'',
           GetRangeObjectCall (TrimPrefix (Path r) ''/ctr/'') rng]))"
  using ServeXORFile_calls [of tf h r] ServeCTRFile_calls [of tf h r]
        ServeCTRFile_416_calls [of tf h r]
  by blast

text \<open>The theorem at a request that ends with 304 on the repeating-key route and at one
  that ends with 416 on the counter-mode route.\<close>

theorem short_circuit_fetches_witness:
  "status (fst (ServeXORFile demoTime (demoServer 1000 demoIV)
      \<lparr>Path = ''/xor/k'', IfModifiedSince = ''100'', Range = [],
        IfUnmodifiedSince = []\<rparr>)) = 304
   \<and> snd (ServeXORFile demoTime (demoServer 1000 demoIV)
      \<lparr>Path = ''/xor/k'', IfModifiedSince = ''100'', Range = [],
        IfUnmodifiedSince = []\<rparr>) = [HeadObjectCall ''k'']
   \<and> status (fst (ServeCTRFile demoTime (demoServer 1016 demoIV)
      \<lparr>Path = ''/ctr/k'', IfModifiedSince = [], Range = ''bytes=7-7'',
        IfUnmodifiedSince = []\<rparr>)) = 416
   \<and> set (snd (ServeCTRFile demoTime (demoServer 1016 demoIV)
      \<lparr>Path = ''/ctr/k'', IfModifiedSince = [], Range = ''bytes=7-7'',
        IfUnmodifiedSince = []\<rparr>))
       \<subseteq> {HeadObjectCall ''k'', GetRangeObjectCall ''k'' ''bytes=0-15''}"
proof -
  let ?r1 = "\<lparr>Path = ''/xor/k'', IfModifiedSince = ''100'', Range = [],
        IfUnmodifiedSince = []\<rparr>"
  let ?r2 = "\<lparr>Path = ''/ctr/k'', IfModifiedSince = [], Range = ''bytes=7-7'',
        IfUnmodifiedSince = []\<rparr>"
  have s1: "status (fst (ServeXORFile demoTime (demoServer 1000 demoIV) ?r1)) = 304"
    by code_simp
  have s2: "status (fst (ServeCTRFile demoTime (demoServer 1016 demoIV) ?r2)) = 416"
    by code_simp
  from short_circuit_fetches [of demoTime "demoServer 1000 demoIV" ?r1] s1
  have c1: "snd (ServeXORFile demoTime (demoServer 1000 demoIV) ?r1) = [HeadObjectCall ''k'']"
    by (simp add: demo_key)
  from short_circuit_fetches [of demoTime "demoServer 1016 demoIV" ?r2] s2
  have c2: "set (snd (ServeCTRFile demoTime (demoServer 1016 demoIV) ?r2))
       \<subseteq> {HeadObjectCall ''k'', GetRangeObjectCall ''k'' ''bytes=0-15''}"
    by (simp add: demo_key)
  from s1 s2 c1 c2 show ?thesis by simp
qed

text \<open>
  Claim C8 as stated says that no fetch is issued in order to reach any of the three
  resolutions. On the repeating-key route a request with an \<^verbatim>\<open>If-Unmodified-Since\<close>
  time that the object's last-modified time does not precede ends with 412 after the
  body fetch \<^verbatim>\<open>bytes=0-999\<close>: the check is made against the fetched object. On the
  counter-mode route the request \<^verbatim>\<open>Range: bytes=300-100\<close> ends with 416 after the
  fetch of \<^verbatim>\<open>bytes=0-15\<close>.
\<close>

theorem fetches_before_resolution:
  "status (fst (ServeCTRFile demoTime (demoServer 1016 demoIV)
      \<lparr>Path = ''/ctr/k'', IfModifiedSince = [], Range = ''bytes=300-100'',
        IfUnmodifiedSince = []\<rparr>)) = 416
   \<and> snd (ServeCTRFile demoTime (demoServer 1016 demoIV)
      \<lparr>Path = ''/ctr/k'', IfModifiedSince = [], Range = ''bytes=300-100'',
        IfUnmodifiedSince = []\<rparr>)
       = [HeadObjectCall ''k'', GetRangeObjectCall ''k'' ''bytes=0-15'']
   \<and> status (fst (ServeXORFile demoTime (demoServer 1000 demoIV)
      \<lparr>Path = ''/xor/k'', IfModifiedSince = [], Range = [],
        IfUnmodifiedSince = ''100''\<rparr>)) = 412
   \<and> snd (ServeXORFile demoTime (demoServer 1000 demoIV)
      \<lparr>Path = ''/xor/k'', IfModifiedSince = [], Range = [],
        IfUnmodifiedSince = ''100''\<rparr>)
       = [HeadObjectCall ''k'', GetRangeObjectCall ''k'' ''bytes=0-999'']"
  by code_simp

lemma ParseInt_syntax_zero: "snd (ParseInt s) = Some ErrSyntax \<Longrightarrow> fst (ParseInt s) = 0"
  by (auto simp: ParseInt_def Let_def split: if_splits prod.splits)

lemma xorRange_malformed:
  "hdr \<noteq> [] \<Longrightarrow> malformedRange hdr \<Longrightarrow> xorRange n hdr = (0, sub64 n 1, True)"
  by (auto simp: xorRange_def malformedRange_def Let_def ParseInt_syntax_zero)

lemma ctrRange_malformed:
  "hdr \<noteq> [] \<Longrightarrow> malformedRange hdr \<Longrightarrow> ctrRange n hdr = (0, sub64 n 1, True)"
  by (auto simp: ctrRange_def malformedRange_def Let_def ParseInt_syntax_zero)

lemma xorRange_invariant:
  assumes "0 \<le> n" and "n < 2 ^ 63" and "xorRange n hdr = (start, end', p)" and "start < end'"
  shows "0 \<le> start \<and> start \<le> end' \<and> end' \<le> n"
  using assms(3,4) sub64_one [OF assms(1,2)]
  by (auto simp: xorRange_def Let_def split: if_splits)

lemma ctrRange_invariant:
  assumes "- (2 ^ 63) < n" and "n < 2 ^ 63" and "ctrRange n hdr = (start, end', p)" and "start < end'"
  shows "0 \<le> start \<and> start \<le> end' \<and> end' < n"
proof -
  have "sub64 n 1 = n - 1"
    unfolding sub64_def using assms(1,2) by (intro wrap64_id) simp_all
  then show ?thesis
    using assms(3,4) by (auto simp: ctrRange_def Let_def split: if_splits)
qed

lemma FormatInt_0: "FormatInt 0 = ''0''"
  by code_simp

lemma FormatInt_16: "FormatInt 16 = ''16''"
  by code_simp

lemma NewCTRReader_zero:
  "length iv0 = 16 \<Longrightarrow> \<exists>rd. NewCTRReader blk iv0 0 = Inr rd"
  by (rule NewCTRReader_total) simp_all

lemma Content_Range_header:
  "(''Content-Range'', ''bytes '' @ FormatInt start @ ''-'' @ FormatInt end' @ ''/'' @ FormatInt n)
     \<in> set (dataHeaders tf headObj getObj start end' n True)"
  by (simp add: dataHeaders_def)

text \<open>
  Claim C5 (ByteRange invariant) fails on the repeating-key route. Its clamp is
  \<^verbatim>\<open>end > fileSize\<close> where the counter-mode route has \<^verbatim>\<open>end >= realFileSize\<close>, so
  an \<open>end\<close> equal to the stored size is kept. For a stored size of 1000 and
  \<^verbatim>\<open>Range: bytes=0-1000\<close> the range is \<open>(0, 1000)\<close>, the body fetch
  \<^verbatim>\<open>bytes=0-1000\<close> is issued and the response announces 1001 bytes and the range
  \<^verbatim>\<open>0-1000/1000\<close>; \<open>end < logicalSize\<close> does not hold. The counter-mode route clamps
  the same header to \<open>(0, 999)\<close>.
\<close>

theorem xor_range_end_at_file_size:
  "xorRange 1000 ''bytes=0-1000'' = (0, 1000, True)
   \<and> ctrRange 1000 ''bytes=0-1000'' = (0, 999, True)
   \<and> status (fst (ServeXORFile demoTime (demoServer 1000 [[1, 2, 3]])
        \<lparr>Path = ''/xor/k'', IfModifiedSince = [], Range = ''bytes=0-1000'',
          IfUnmodifiedSince = []\<rparr>)) = 206
   \<and> header (fst (ServeXORFile demoTime (demoServer 1000 [[1, 2, 3]])
        \<lparr>Path = ''/xor/k'', IfModifiedSince = [], Range = ''bytes=0-1000'',
          IfUnmodifiedSince = []\<rparr>))
      = [(''Accept-Ranges'', ''bytes''),
         (''Content-Type'', ''application/octet-stream''),
         (''Content-Length'', ''1001''),
         (''ETag'', ''etag''),
         (''Last-Modified'', ''100''),
         (''Content-Range'', ''bytes 0-1000/1000'')]
   \<and> snd (ServeXORFile demoTime (demoServer 1000 [[1, 2, 3]])
        \<lparr>Path = ''/xor/k'', IfModifiedSince = [], Range = ''bytes=0-1000'',
          IfUnmodifiedSince = []\<rparr>)
      = [HeadObjectCall ''k'', GetRangeObjectCall ''k'' ''bytes=0-1000'']"
  by code_simp

text \<open>
  Claim C10 (malformed Range headers), as the code has it. A \<^verbatim>\<open>Range\<close> header that
  is present but does not split into exactly two parts around \<^verbatim>\<open>-\<close>, or whose two
  parts both fail to parse, is not rejected: the range is the default \<open>[0, n - 1]\<close> of
  the logical size \<open>n\<close>, and the request goes on as a partial request. When the logical
  size is at least 2, the metadata fetch, the IV fetch on the counter-mode route and the
  body fetch of the default range succeed and neither conditional check ends the request,
  the status is 206 and the \<^verbatim>\<open>Content-Range\<close> header is
  \<^verbatim>\<open>bytes 0-<n-1>/<n>\<close>.
\<close>

theorem malformed_range_tolerated:
  "(Range r \<noteq> [] \<and> malformedRange (Range r)
      \<and> HeadObject (s3Client h) (TrimPrefix (Path r) ''/xor/'') = Inr headObj
      \<and> checkIfModifiedSince tf (IfModifiedSince r) (HeadObjectOutput.LastModified headObj) = None
      \<and> 2 \<le> ContentLength headObj \<and> ContentLength headObj < 2 ^ 63
      \<and> GetRangeObject (s3Client h) (TrimPrefix (Path r) ''/xor/'')
            (''bytes=0-'' @ FormatInt (ContentLength headObj - 1)) = Inr getObj
      \<and> checkIfUnmodifiedSince tf (IfUnmodifiedSince r) (GetObjectOutput.LastModified getObj) = None
    \<longrightarrow> xorRange (ContentLength headObj) (Range r) = (0, ContentLength headObj - 1, True)
      \<and> status (fst (ServeXORFile tf h r)) = 206
      \<and> (''Content-Range'',
             ''bytes 0-'' @ FormatInt (ContentLength headObj - 1) @ ''/''
               @ FormatInt (ContentLength headObj))
           \<in> set (header (fst (ServeXORFile tf h r))))
   \<and> (Range r \<noteq> [] \<and> malformedRange (Range r)
      \<and> HeadObject (s3Client h) (TrimPrefix (Path r) ''/ctr/'') = Inr headObj
      \<and> checkIfModifiedSince tf (IfModifiedSince r) (HeadObjectOutput.LastModified headObj) = None
      \<and> GetRangeObject (s3Client h) (TrimPrefix (Path r) ''/ctr/'') ''bytes=0-15'' = Inr ivObj
      \<and> BlockSize \<le> length (concat (Body ivObj))
      \<and> 18 \<le> ContentLength headObj \<and> ContentLength headObj < 2 ^ 63
      \<and> GetRangeObject (s3Client h) (TrimPrefix (Path r) ''/ctr/'')
            (''bytes=16-'' @ FormatInt (ContentLength headObj - 1)) = Inr getObj
      \<and> checkIfUnmodifiedSince tf (IfUnmodifiedSince r) (GetObjectOutput.LastModified getObj) = None
    \<longrightarrow> ctrRange (ContentLength headObj - 16) (Range r) = (0, ContentLength headObj - 17, True)
      \<and> status (fst (ServeCTRFile tf h r)) = 206
      \<and> (''Content-Range'',
             ''bytes 0-'' @ FormatInt (ContentLength headObj - 17) @ ''/''
               @ FormatInt (ContentLength headObj - 16))
           \<in> set (header (fst (ServeCTRFile tf h r))))"
proof (intro conjI impI)
  let ?n = "ContentLength headObj"
  assume a: "Range r \<noteq> [] \<and> malformedRange (Range r)
      \<and> HeadObject (s3Client h) (TrimPrefix (Path r) ''/xor/'') = Inr headObj
      \<and> checkIfModifiedSince tf (IfModifiedSince r) (HeadObjectOutput.LastModified headObj) = None
      \<and> 2 \<le> ContentLength headObj \<and> ContentLength headObj < 2 ^ 63
      \<and> GetRangeObject (s3Client h) (TrimPrefix (Path r) ''/xor/'')
            (''bytes=0-'' @ FormatInt (ContentLength headObj - 1)) = Inr getObj
      \<and> checkIfUnmodifiedSince tf (IfUnmodifiedSince r) (GetObjectOutput.LastModified getObj) = None"
  then have n: "0 \<le> ?n" "?n < 2 ^ 63" "2 \<le> ?n" by simp_all
  have rg: "xorRange ?n (Range r) = (0, ?n - 1, True)"
    using a xorRange_malformed [of "Range r" ?n] sub64_one [OF n(1,2)] by simp
  have ho: "HeadObject (s3Client h) (TrimPrefix (Path r) ''/xor/'') = Inr headObj"
    and im: "checkIfModifiedSince tf (IfModifiedSince r) (HeadObjectOutput.LastModified headObj) = None"
    using a by simp_all
  have e: "fst (ServeXORFile tf h r) =
      \<lparr>status = 206, header = dataHeaders tf headObj getObj 0 (?n - 1) ?n True,
        body = (case xorReader_ReadAll (NewXorReader (xorKey h) 0) (Body getObj) of
                  Inl e \<Rightarrow> Inl e | Inr (outs, r1) \<Rightarrow> Inr (concat outs))\<rparr>"
    unfolding ServeXORFile_reaches_check [OF ho im rg] using a n(3)
    by (simp add: Let_def FormatInt_0)
  show "xorRange ?n (Range r) = (0, ?n - 1, True)" by (rule rg)
  show "status (fst (ServeXORFile tf h r)) = 206" unfolding e by simp
  show "(''Content-Range'', ''bytes 0-'' @ FormatInt (?n - 1) @ ''/'' @ FormatInt ?n)
           \<in> set (header (fst (ServeXORFile tf h r)))"
    unfolding e using Content_Range_header [of 0 "?n - 1" ?n tf headObj getObj]
    by (simp add: FormatInt_0)
next
  let ?n = "ContentLength headObj"
  assume a: "Range r \<noteq> [] \<and> malformedRange (Range r)
      \<and> HeadObject (s3Client h) (TrimPrefix (Path r) ''/ctr/'') = Inr headObj
      \<and> checkIfModifiedSince tf (IfModifiedSince r) (HeadObjectOutput.LastModified headObj) = None
      \<and> GetRangeObject (s3Client h) (TrimPrefix (Path r) ''/ctr/'') ''bytes=0-15'' = Inr ivObj
      \<and> BlockSize \<le> length (concat (Body ivObj))
      \<and> 18 \<le> ContentLength headObj \<and> ContentLength headObj < 2 ^ 63
      \<and> GetRangeObject (s3Client h) (TrimPrefix (Path r) ''/ctr/'')
            (''bytes=16-'' @ FormatInt (ContentLength headObj - 1)) = Inr getObj
      \<and> checkIfUnmodifiedSince tf (IfUnmodifiedSince r) (GetObjectOutput.LastModified getObj) = None"
  then have n: "18 \<le> ?n" "?n < 2 ^ 63" by simp_all
  have rf: "sub64 ?n (int BlockSize) = ?n - 16"
    unfolding sub64_def BlockSize_def using n by (simp add: wrap64_id)
  have s1: "sub64 (?n - 16) 1 = ?n - 17"
    unfolding sub64_def using n by (simp add: wrap64_id)
  have a16: "add64 0 (int BlockSize) = 16" "add64 (?n - 17) (int BlockSize) = ?n - 1"
    unfolding add64_def BlockSize_def using n by (simp_all add: wrap64_id)
  have rg: "ctrRange (?n - 16) (Range r) = (0, ?n - 17, True)"
    using a ctrRange_malformed [of "Range r" "?n - 16"] s1 by simp
  have ho: "HeadObject (s3Client h) (TrimPrefix (Path r) ''/ctr/'') = Inr headObj"
    and im: "checkIfModifiedSince tf (IfModifiedSince r) (HeadObjectOutput.LastModified headObj) = None"
    and iv: "GetRangeObject (s3Client h) (TrimPrefix (Path r) ''/ctr/'')
           (''bytes=0-'' @ FormatInt (int BlockSize - 1)) = Inr ivObj"
    and il: "\<not> length (concat (Body ivObj)) < BlockSize"
    using a by (simp_all add: FormatInt_15)
  have rg': "ctrRange (sub64 ?n (int BlockSize)) (Range r) = (0, ?n - 17, True)"
    unfolding rf by (rule rg)
  have "length (take BlockSize (concat (Body ivObj))) = 16"
    using il by (simp add: BlockSize_def)
  then obtain rd where rd: "NewCTRReader (cipherBlock h) (take BlockSize (concat (Body ivObj))) 0 = Inr rd"
    using NewCTRReader_zero by blast
  have e: "fst (ServeCTRFile tf h r) =
      \<lparr>status = 206, header = dataHeaders tf headObj getObj 0 (?n - 17) (?n - 16) True,
        body = Inr (concat (fst (ctrReader_ReadAll rd (Body getObj))))\<rparr>"
    unfolding ServeCTRFile_reaches_check [OF ho im iv il rg'] Let_def a16 rf using a n(1) rd
    by (simp add: FormatInt_0 FormatInt_16)
  show "ctrRange (?n - 16) (Range r) = (0, ?n - 17, True)" by (rule rg)
  show "status (fst (ServeCTRFile tf h r)) = 206" unfolding e by simp
  show "(''Content-Range'', ''bytes 0-'' @ FormatInt (?n - 17) @ ''/'' @ FormatInt (?n - 16))
           \<in> set (header (fst (ServeCTRFile tf h r)))"
    unfolding e using Content_Range_header [of 0 "?n - 17" "?n - 16" tf headObj getObj]
    by (simp add: FormatInt_0)
qed

text \<open>The theorem at the multi-range header \<^verbatim>\<open>bytes=0-5,10-15\<close> and a logical size
  of 1000 on both routes.\<close>

theorem malformed_range_tolerated_witness:
  "malformedRange ''bytes=0-5,10-15''
   \<and> xorRange 1000 ''bytes=0-5,10-15'' = (0, 999, True)
   \<and> status (fst (ServeXORFile demoTime (demoServer 1000 demoIV)
        \<lparr>Path = ''/xor/k'', IfModifiedSince = [], Range = ''bytes=0-5,10-15'',
          IfUnmodifiedSince = []\<rparr>)) = 206
   \<and> (''Content-Range'', ''bytes 0-999/1000'')
        \<in> set (header (fst (ServeXORFile demoTime (demoServer 1000 demoIV)
        \<lparr>Path = ''/xor/k'', IfModifiedSince = [], Range = ''bytes=0-5,10-15'',
          IfUnmodifiedSince = []\<rparr>)))
   \<and> ctrRange 1000 ''bytes=0-5,10-15'' = (0, 999, True)
   \<and> status (fst (ServeCTRFile demoTime (demoServer 1016 demoIV)
        \<lparr>Path = ''/ctr/k'', IfModifiedSince = [], Range = ''bytes=0-5,10-15'',
          IfUnmodifiedSince = []\<rparr>)) = 206
   \<and> (''Content-Range'', ''bytes 0-999/1000'')
        \<in> set (header (fst (ServeCTRFile demoTime (demoServer 1016 demoIV)
        \<lparr>Path = ''/ctr/k'', IfModifiedSince = [], Range = ''bytes=0-5,10-15'',
          IfUnmodifiedSince = []\<rparr>)))"
proof -
  let ?r1 = "\<lparr>Path = ''/xor/k'', IfModifiedSince = [], Range = ''bytes=0-5,10-15'',
          IfUnmodifiedSince = []\<rparr>"
  let ?r2 = "\<lparr>Path = ''/ctr/k'', IfModifiedSince = [], Range = ''bytes=0-5,10-15'',
          IfUnmodifiedSince = []\<rparr>"
  let ?h1 = "\<lparr>ContentLength = 1000, ContentType = ''application/octet-stream'',
          HeadObjectOutput.LastModified = 100\<rparr>"
  let ?h2 = "\<lparr>ContentLength = 1016, ContentType = ''application/octet-stream'',
          HeadObjectOutput.LastModified = 100\<rparr>"
  let ?g = "\<lparr>Body = demoIV, ETag = ''etag'', GetObjectOutput.LastModified = 100\<rparr>"
  have m: "malformedRange ''bytes=0-5,10-15''" by code_simp
  have c1: "checkIfModifiedSince demoTime [] 100 = None"
    and c2: "checkIfUnmodifiedSince demoTime [] 100 = None"
    by (simp_all add: checkIfModifiedSince_def checkIfUnmodifiedSince_def)
  have bl: "BlockSize \<le> length (concat demoIV)" by (simp add: BlockSize_def demoIV_def)
  have f: "FormatInt 999 = ''999''" "FormatInt 1000 = ''1000''" by code_simp+
  from malformed_range_tolerated [where r = ?r1 and h = "demoServer 1000 demoIV" and headObj = ?h1
      and tf = demoTime and getObj = ?g and ivObj = ?g] m c1 c2
  have x: "xorRange 1000 ''bytes=0-5,10-15'' = (0, 999, True)
      \<and> status (fst (ServeXORFile demoTime (demoServer 1000 demoIV) ?r1)) = 206
      \<and> (''Content-Range'', ''bytes 0-999/1000'')
           \<in> set (header (fst (ServeXORFile demoTime (demoServer 1000 demoIV) ?r1)))"
    by (simp add: demoServer_def demoClient_def f)
  from malformed_range_tolerated [where r = ?r2 and h = "demoServer 1016 demoIV" and headObj = ?h2
      and tf = demoTime and getObj = ?g and ivObj = ?g] m c1 c2 bl
  have c: "ctrRange 1000 ''bytes=0-5,10-15'' = (0, 999, True)
      \<and> status (fst (ServeCTRFile demoTime (demoServer 1016 demoIV) ?r2)) = 206
      \<and> (''Content-Range'', ''bytes 0-999/1000'')
           \<in> set (header (fst (ServeCTRFile demoTime (demoServer 1016 demoIV) ?r2)))"
    by (simp add: demoServer_def demoClient_def f)
  from m x c show ?thesis by simp
qed

text \<open>
  Claim C9 (zero-length key rejection) fails on the code: \<^verbatim>\<open>NewXorReader\<close> and
  \<^verbatim>\<open>NewXorWriter\<close> check nothing and return a stream that holds the empty key. The
  fault comes with the first byte transformed, an integer division by zero in
  \<^verbatim>\<open>(r.offset+i)%keyLen\<close>. In \<^verbatim>\<open>ServeXORFile\<close> with an empty \<^verbatim>\<open>XOR_KEY\<close> the
  status 200 and the headers are written, and the copy of the body panics.
\<close>

theorem xor_empty_key_not_rejected:
  "NewXorReader [] 0 = \<lparr>xorReader.key = [], xorReader.offset = 0\<rparr>
   \<and> NewXorWriter [] = \<lparr>xorWriter.key = [], xorWriter.offset = 0\<rparr>
   \<and> xorReader_Read (NewXorReader [] 0) [65] = Inl DivideByZero
   \<and> xorWriter_Write (NewXorWriter []) [65] = Inl DivideByZero
   \<and> ServeXORFile demoTime ((demoServer 1000 [[65, 66]])\<lparr>xorKey := []\<rparr>)
        \<lparr>Path = ''/xor/k'', IfModifiedSince = [], Range = [], IfUnmodifiedSince = []\<rparr>
      = (\<lparr>status = 200,
           header = [(''Accept-Ranges'', ''bytes''),
                     (''Content-Type'', ''application/octet-stream''),
                     (''Content-Length'', ''1000''),
                     (''ETag'', ''etag''),
                     (''Last-Modified'', ''100'')],
           body = Inl DivideByZero\<rparr>,
         [HeadObjectCall ''k'', GetRangeObjectCall ''k'' ''bytes=0-999''])"
  by code_simp

text \<open>
  Claim C10 as stated promises 206 for every request with a malformed \<^verbatim>\<open>Range\<close>
  header. For an empty object the default range is \<open>[0, -1]\<close>, which no reading of a
  range satisfies, and the response to \<^verbatim>\<open>Range: bytes=0-5,10-15\<close> is 416.
\<close>

theorem malformed_range_on_empty_object:
  "malformedRange ''bytes=0-5,10-15''
   \<and> xorRange 0 ''bytes=0-5,10-15'' = (0, - 1, True)
   \<and> status (fst (ServeXORFile demoTime (demoServer 0 [])
        \<lparr>Path = ''/xor/k'', IfModifiedSince = [], Range = ''bytes=0-5,10-15'',
          IfUnmodifiedSince = []\<rparr>)) = 416"
  by code_simp

end
